theory Spec2Isabelle
  imports
    Main
    "HOL-Library.Multiset"
    "HOL-Library.Char_ord"
    "HOL-Library.List_Lexorder"
    "HOL-Library.Word"
begin

section \<open>java/hiddenapi.go: the shared registry of hiddenapi outputs\<close>

subsection \<open>Configuration, pointers and the three lists\<close>

text \<open>
  \<^verbatim>\<open>hiddenAPIGetOutputs\<close> hands out three pointers \<^verbatim>\<open>*android.Paths\<close>; the callers append
  through them and \<^verbatim>\<open>hiddenAPIMakeVars\<close> reads through them.  The aliasing is kept explicit:
  a pointer is an address, and the configuration carries a store from addresses to path
  lists, the table behind \<^verbatim>\<open>config.Once\<close> and the next free address.  The element type
  \<^verbatim>\<open>android.Path\<close> is an interface declared outside this file, so it stays a type variable
  \<open>'p\<close>, and its method \<^verbatim>\<open>String()\<close> is a parameter \<open>S\<close> of the functions that call it.
\<close>

type_synonym addr = nat

type_synonym threePathsPtrs = "addr \<times> addr \<times> addr"

record 'p config =
  onceStore :: "string \<rightharpoonup> threePathsPtrs"
  store :: "addr \<rightharpoonup> 'p list"
  nextAddr :: addr

definition newConfig :: "'p config" where
  "newConfig = \<lparr>onceStore = Map.empty, store = Map.empty, nextAddr = 0\<rparr>"

definition hiddenAPIOutputsKey :: string where
  "hiddenAPIOutputsKey = ''hiddenAPIOutputsKey''"

text \<open>
  Modelled from the spec: \<^verbatim>\<open>android.Config.Once\<close> (android/onceper.go is not among the
  sources).  The spec: the mapping is created exactly once per build invocation, lazily, on
  first access; the first writer wins and all others observe the same instance.  So the
  first call under a key runs the constructor and records its value, and every later call
  returns the recorded value without running the constructor.
\<close>

definition Once ::
  "string \<Rightarrow> ('p config \<Rightarrow> threePathsPtrs \<times> 'p config) \<Rightarrow> 'p config \<Rightarrow> threePathsPtrs \<times> 'p config"
where
  "Once key f c =
     (case onceStore c key of
        Some v \<Rightarrow> (v, c)
      | None \<Rightarrow>
          (case f c of (v, c') \<Rightarrow> (v, c'\<lparr>onceStore := (onceStore c')(key \<mapsto> v)\<rparr>)))"

text \<open>\<^verbatim>\<open>new(android.Paths)\<close>: a fresh address holding the nil slice.\<close>

definition new_Paths :: "'p config \<Rightarrow> addr \<times> 'p config" where
  "new_Paths c =
     (nextAddr c, c\<lparr>store := (store c)(nextAddr c \<mapsto> []), nextAddr := Suc (nextAddr c)\<rparr>)"

definition hiddenAPIGetOutputs :: "'p config \<Rightarrow> threePathsPtrs \<times> 'p config" where
  "hiddenAPIGetOutputs config =
     Once hiddenAPIOutputsKey
       (\<lambda>c. case new_Paths c of (p0, c0) \<Rightarrow>
             case new_Paths c0 of (p1, c1) \<Rightarrow>
             case new_Paths c1 of (p2, c2) \<Rightarrow> ((p0, p1, p2), c2))
       config"

text \<open>
  \<^verbatim>\<open>*list = append(*list, x)\<close>.  Reading through a pointer that holds nothing is a
  nil dereference: the result is \<open>None\<close>.
\<close>

definition appendAt :: "addr \<Rightarrow> 'p \<Rightarrow> 'p config \<Rightarrow> 'p config option" where
  "appendAt p x c =
     (case store c p of
        None \<Rightarrow> None
      | Some xs \<Rightarrow> Some (c\<lparr>store := (store c)(p \<mapsto> xs @ [x])\<rparr>))"

text \<open>
  One call running alone; the lock is taken and released around the appends and has no
  effect of its own here.  The interleaving of several calls is modelled further below.
\<close>

definition hiddenAPISaveCSVOutputs :: "'p config \<Rightarrow> 'p \<Rightarrow> 'p \<Rightarrow> 'p config option" where
  "hiddenAPISaveCSVOutputs config flagsCSV metadataCSV =
     (case hiddenAPIGetOutputs config of
        ((flagsCSVList, metadataCSVList, _), c) \<Rightarrow>
          (case appendAt flagsCSVList flagsCSV c of
             None \<Rightarrow> None
           | Some c' \<Rightarrow> appendAt metadataCSVList metadataCSV c'))"

definition hiddenAPISaveDexInputs :: "'p config \<Rightarrow> 'p \<Rightarrow> 'p config option" where
  "hiddenAPISaveDexInputs config dexInput =
     (case hiddenAPIGetOutputs config of
        ((_, _, dexInputList), c) \<Rightarrow> appendAt dexInputList dexInput c)"

subsection \<open>The export step\<close>

text \<open>\<^verbatim>\<open>Paths.Strings()\<close>: the \<^verbatim>\<open>String()\<close> of every element, in order, in a new slice.\<close>

definition Paths_Strings :: "('p \<Rightarrow> string) \<Rightarrow> 'p list \<Rightarrow> string list" where
  "Paths_Strings S paths = map S paths"

text \<open>
  \<^verbatim>\<open>sort.Strings\<close> sorts in increasing order of Go's string comparison, which compares
  byte by byte.  On \<open>string\<close> that is the lexicographic order of the lists over the order
  of the character codes.  The library routine is not stable, but equal strings are
  indistinguishable, so its result is the one sorted rearrangement.
\<close>

definition sort_Strings :: "string list \<Rightarrow> string list" where
  "sort_Strings s = sort s"

text \<open>\<^verbatim>\<open>strings.Join\<close>.\<close>

fun Join :: "string list \<Rightarrow> string \<Rightarrow> string" where
  "Join [] sep = []"
| "Join [x] sep = x"
| "Join (x # xs) sep = x @ concat (map (\<lambda>s. sep @ s) xs)"

text \<open>
  Modelled from the spec: \<^verbatim>\<open>MakeVarsContext.Strict\<close> (android/makevars.go is not among the
  sources).  The spec: the drained sequence is serialized as a single string assigned to a
  named build variable.  The context is the list of the assignments made so far.
\<close>

type_synonym makeVars = "(string \<times> string) list"

definition Strict :: "string \<Rightarrow> string \<Rightarrow> makeVars \<Rightarrow> makeVars" where
  "Strict name value ctx = ctx @ [(name, value)]"

definition export :: "('p \<Rightarrow> string) \<Rightarrow> 'p config \<Rightarrow> string \<Rightarrow> addr \<Rightarrow> makeVars \<Rightarrow> makeVars option" where
  "export S c name paths ctx =
     (case store c paths of
        None \<Rightarrow> None
      | Some ps \<Rightarrow>
          (let s = Paths_Strings S ps;
               s = sort_Strings s
           in Some (Strict name (Join s '' '') ctx)))"

definition hiddenAPIMakeVars ::
  "('p \<Rightarrow> string) \<Rightarrow> 'p config \<Rightarrow> makeVars \<Rightarrow> (makeVars \<times> 'p config) option"
where
  "hiddenAPIMakeVars S config ctx =
     (case hiddenAPIGetOutputs config of
        ((flagsCSVList, metadataCSVList, dexInputList), c) \<Rightarrow>
          (case export S c ''SOONG_HIDDENAPI_FLAGS'' flagsCSVList ctx of
             None \<Rightarrow> None
           | Some ctx1 \<Rightarrow>
          (case export S c ''SOONG_HIDDENAPI_GREYLIST_METADATA'' metadataCSVList ctx1 of
             None \<Rightarrow> None
           | Some ctx2 \<Rightarrow>
          (case export S c ''SOONG_HIDDENAPI_DEX_INPUTS'' dexInputList ctx2 of
             None \<Rightarrow> None
           | Some ctx3 \<Rightarrow> Some (ctx3, c)))))"

subsection \<open>Callers, and what the registry holds\<close>

text \<open>
  A configuration is in order when the three pointers recorded by \<^verbatim>\<open>Once\<close>, if any, are
  distinct and each holds a list.  The fresh configuration is in order, and every function
  of this file keeps it so.  \<open>outputs\<close> reads the three lists (flags CSVs, metadata CSVs,
  dex inputs) as they stand; all three are empty while nothing has been created.
\<close>

definition config_ok :: "'p config \<Rightarrow> bool" where
  "config_ok c =
     (case onceStore c hiddenAPIOutputsKey of
        None \<Rightarrow> True
      | Some (a, b, d) \<Rightarrow>
          distinct [a, b, d] \<and> store c a \<noteq> None \<and> store c b \<noteq> None \<and> store c d \<noteq> None)"

definition pathsAt :: "'p config \<Rightarrow> addr \<Rightarrow> 'p list" where
  "pathsAt c p = (case store c p of Some xs \<Rightarrow> xs | None \<Rightarrow> [])"

definition outputs :: "'p config \<Rightarrow> 'p list \<times> 'p list \<times> 'p list" where
  "outputs c =
     (case onceStore c hiddenAPIOutputsKey of
        None \<Rightarrow> ([], [], [])
      | Some (a, b, d) \<Rightarrow> (pathsAt c a, pathsAt c b, pathsAt c d))"

text \<open>
  The rule-emission helpers reach the registry through two entry points; a caller is one
  call of either, and a build is a sequence of callers in their order of arrival.
\<close>

datatype 'p call = SaveCSV 'p 'p | SaveDex 'p

fun call_run :: "'p call \<Rightarrow> 'p config \<Rightarrow> 'p config option" where
  "call_run (SaveCSV flagsCSV metadataCSV) c = hiddenAPISaveCSVOutputs c flagsCSV metadataCSV"
| "call_run (SaveDex dexInput) c = hiddenAPISaveDexInputs c dexInput"

fun calls_run :: "'p call list \<Rightarrow> 'p config \<Rightarrow> 'p config option" where
  "calls_run [] c = Some c"
| "calls_run (x # xs) c = (case call_run x c of None \<Rightarrow> None | Some c' \<Rightarrow> calls_run xs c')"

fun flagsOf :: "'p call \<Rightarrow> 'p list" where
  "flagsOf (SaveCSV f m) = [f]" | "flagsOf (SaveDex d) = []"
fun metadataOf :: "'p call \<Rightarrow> 'p list" where
  "metadataOf (SaveCSV f m) = [m]" | "metadataOf (SaveDex d) = []"
fun dexOf :: "'p call \<Rightarrow> 'p list" where
  "dexOf (SaveCSV f m) = []" | "dexOf (SaveDex d) = [d]"

subsection \<open>Callers that run side by side\<close>

text \<open>
  The build runs the callers concurrently.  Both entry points have the same shape: fetch
  the pointers with \<^verbatim>\<open>hiddenAPIGetOutputs\<close>, take \<^verbatim>\<open>hiddenAPIOutputsLock\<close>, append through
  the pointers, release the lock on return.  A caller is at one of these places:
  \<^item> \<open>NotStarted\<close>: before \<^verbatim>\<open>hiddenAPIGetOutputs\<close>;
  \<^item> \<open>Waiting todo\<close>: it has its pointers and is before \<^verbatim>\<open>Lock()\<close>; \<open>todo\<close> are the
    appends it is going to make, each a pointer and a path;
  \<^item> \<open>Holding todo\<close>: it holds the lock, with \<open>todo\<close> still to append;
  \<^item> \<open>Loaded p xs x todo\<close>: in the middle of \<^verbatim>\<open>*p = append(*p, x)\<close>, having read \<open>xs\<close>
    through \<open>p\<close> and not yet stored;
  \<^item> \<open>Finished\<close>: it has released the lock and returned.

  A step of the whole is a step of one caller.  \<^verbatim>\<open>Once\<close> is one step (the specification's
  single creation, see \<open>Once\<close> above), \<^verbatim>\<open>Lock()\<close> is a step that is possible only while the
  lock is free, reading and storing through a pointer are two steps, and the deferred
  \<^verbatim>\<open>Unlock()\<close> is the last one.  The world records, besides the configuration and the
  lock, what every call of \<^verbatim>\<open>hiddenAPIGetOutputs\<close> has returned.
\<close>

datatype 'p place =
    NotStarted
  | Waiting "(addr \<times> 'p) list"
  | Holding "(addr \<times> 'p) list"
  | Loaded addr "'p list" 'p "(addr \<times> 'p) list"
  | Finished

record 'p world =
  shared :: "'p config"
  locked :: bool
  handed :: "threePathsPtrs list"

fun appends :: "'p call \<Rightarrow> threePathsPtrs \<Rightarrow> (addr \<times> 'p) list" where
  "appends (SaveCSV flagsCSV metadataCSV) (flagsCSVList, metadataCSVList, _) =
     [(flagsCSVList, flagsCSV), (metadataCSVList, metadataCSV)]"
| "appends (SaveDex dexInput) (_, _, dexInputList) = [(dexInputList, dexInput)]"

fun caller_step ::
  "'p call \<times> 'p place \<Rightarrow> 'p world \<Rightarrow> (('p call \<times> 'p place) \<times> 'p world) option"
where
  "caller_step (call, NotStarted) w =
     (case hiddenAPIGetOutputs (shared w) of
        (ptrs, c) \<Rightarrow>
          Some ((call, Waiting (appends call ptrs)), w\<lparr>shared := c, handed := handed w @ [ptrs]\<rparr>))"
| "caller_step (call, Waiting todo) w =
     (if locked w then None else Some ((call, Holding todo), w\<lparr>locked := True\<rparr>))"
| "caller_step (call, Holding []) w = Some ((call, Finished), w\<lparr>locked := False\<rparr>)"
| "caller_step (call, Holding ((p, x) # todo)) w =
     (case store (shared w) p of
        None \<Rightarrow> None
      | Some xs \<Rightarrow> Some ((call, Loaded p xs x todo), w))"
| "caller_step (call, Loaded p xs x todo) w =
     Some ((call, Holding todo),
           w\<lparr>shared := (shared w)\<lparr>store := (store (shared w))(p \<mapsto> xs @ [x])\<rparr>\<rparr>)"
| "caller_step (call, Finished) w = None"

text \<open>
  A schedule names, step by step, the caller that moves.  A schedule that asks a caller
  for a step it cannot take (it waits for the lock, or has returned) is no run.
\<close>

type_synonym 'p system = "('p call \<times> 'p place) list \<times> 'p world"

definition step :: "nat \<Rightarrow> 'p system \<Rightarrow> 'p system option" where
  "step i s =
     (case s of (ts, w) \<Rightarrow>
        if i < length ts then
          (case caller_step (ts ! i) w of
             None \<Rightarrow> None
           | Some (t, w') \<Rightarrow> Some (ts[i := t], w'))
        else None)"

fun run_schedule :: "nat list \<Rightarrow> 'p system \<Rightarrow> 'p system option" where
  "run_schedule [] s = Some s"
| "run_schedule (i # sched) s =
     (case step i s of None \<Rightarrow> None | Some s' \<Rightarrow> run_schedule sched s')"

definition start :: "'p call list \<Rightarrow> 'p config \<Rightarrow> 'p system" where
  "start calls c = (map (\<lambda>call. (call, NotStarted)) calls, \<lparr>shared = c, locked = False, handed = []\<rparr>)"

text \<open>
  For the proofs: what a caller still has to append, whether it is inside the lock, and
  the paths among a list of appends that go through a given pointer.
\<close>

fun pending :: "threePathsPtrs \<Rightarrow> 'p call \<times> 'p place \<Rightarrow> (addr \<times> 'p) list" where
  "pending ptrs (call, NotStarted) = appends call ptrs"
| "pending ptrs (call, Waiting todo) = todo"
| "pending ptrs (call, Holding todo) = todo"
| "pending ptrs (call, Loaded p xs x todo) = (p, x) # todo"
| "pending ptrs (call, Finished) = []"

fun inside :: "'p call \<times> 'p place \<Rightarrow> bool" where
  "inside (call, Holding todo) = True"
| "inside (call, Loaded p xs x todo) = True"
| "inside (call, _) = False"

definition through :: "addr \<Rightarrow> (addr \<times> 'p) list \<Rightarrow> 'p multiset" where
  "through q todo = mset (map snd (filter (\<lambda>e. fst e = q) todo))"

definition known :: "threePathsPtrs \<Rightarrow> (addr \<times> 'p) list \<Rightarrow> bool" where
  "known ptrs todo =
     (case ptrs of (a, b, d) \<Rightarrow> list_all (\<lambda>e. fst e = a \<or> fst e = b \<or> fst e = d) todo)"

fun caller_ok :: "threePathsPtrs \<Rightarrow> 'p config \<Rightarrow> 'p call \<times> 'p place \<Rightarrow> bool" where
  "caller_ok ptrs c (call, NotStarted) = True"
| "caller_ok ptrs c (call, Waiting todo) = (todo = appends call ptrs)"
| "caller_ok ptrs c (call, Holding todo) = known ptrs todo"
| "caller_ok ptrs c (call, Loaded p xs x todo) = (store c p = Some xs \<and> known ptrs ((p, x) # todo))"
| "caller_ok ptrs c (call, Finished) = True"

definition invariant ::
  "'p list \<Rightarrow> 'p list \<Rightarrow> 'p list \<Rightarrow> 'p call list \<Rightarrow> 'p system \<Rightarrow> bool"
where
  "invariant fl ml dl calls s =
     (case s of (ts, w) \<Rightarrow>
        \<exists>a b d.
          onceStore (shared w) hiddenAPIOutputsKey = Some (a, b, d) \<and>
          a \<noteq> b \<and> a \<noteq> d \<and> b \<noteq> d \<and>
          store (shared w) a \<noteq> None \<and> store (shared w) b \<noteq> None \<and>
          store (shared w) d \<noteq> None \<and>
          map fst ts = calls \<and>
          list_all (\<lambda>q. q = (a, b, d)) (handed w) \<and>
          list_all (caller_ok (a, b, d) (shared w)) ts \<and>
          length (filter inside ts) = (if locked w then 1 else 0) \<and>
          mset (pathsAt (shared w) a) + through a (concat (map (pending (a, b, d)) ts))
            = mset fl + mset (concat (map flagsOf calls)) \<and>
          mset (pathsAt (shared w) b) + through b (concat (map (pending (a, b, d)) ts))
            = mset ml + mset (concat (map metadataOf calls)) \<and>
          mset (pathsAt (shared w) d) + through d (concat (map (pending (a, b, d)) ts))
            = mset dl + mset (concat (map dexOf calls)))"

section \<open>ui/build/kati.go: running ckati and rewriting its output\<close>

subsection \<open>Matching a line against \<^verbatim>\<open>katiIncludeRe\<close>\<close>

text \<open>
  A Go string is a sequence of bytes, here a \<open>string\<close>.  The regular expression engine
  (package \<^verbatim>\<open>regexp\<close>) reads the bytes as UTF-8, one code point at a time, and takes a
  byte that starts no valid encoding as a code point of width one.  \<open>DecodeRune_width\<close>
  is the width that \<^verbatim>\<open>utf8.DecodeRuneInString\<close> returns: the lead byte gives the size and
  the range accepted for the second byte; the remaining bytes are continuation bytes.
\<close>

definition byte_in :: "char \<Rightarrow> nat \<Rightarrow> nat \<Rightarrow> bool" where
  "byte_in c lo hi = (lo \<le> of_char c \<and> of_char c \<le> (hi :: nat))"

fun DecodeRune_size :: "char \<Rightarrow> (nat \<times> nat \<times> nat) option" where
  "DecodeRune_size s0 =
     (let b = (of_char s0 :: nat) in
      if b < 0x80 then None
      else if b < 0xC2 then None
      else if b < 0xE0 then Some (2, 0x80, 0xBF)
      else if b = 0xE0 then Some (3, 0xA0, 0xBF)
      else if b = 0xED then Some (3, 0x80, 0x9F)
      else if b < 0xF0 then Some (3, 0x80, 0xBF)
      else if b = 0xF0 then Some (4, 0x90, 0xBF)
      else if b < 0xF4 then Some (4, 0x80, 0xBF)
      else if b = 0xF4 then Some (4, 0x80, 0x8F)
      else None)"

fun DecodeRune_width :: "string \<Rightarrow> nat" where
  "DecodeRune_width [] = 0"
| "DecodeRune_width (s0 # s) =
     (case DecodeRune_size s0 of
        None \<Rightarrow> 1
      | Some (sz, lo, hi) \<Rightarrow>
          if length (s0 # s) < sz then 1
          else if \<not> byte_in (s ! 0) lo hi then 1
          else if sz \<le> 2 then 2
          else if \<not> byte_in (s ! 1) 0x80 0xBF then 1
          else if sz \<le> 3 then 3
          else if \<not> byte_in (s ! 2) 0x80 0xBF then 1
          else 4)"

text \<open>
  The expressions that \<^verbatim>\<open>katiIncludeRe\<close> is built from.  Every test of a code point
  below looks at an ASCII character, and an ASCII byte is always a code point of its own,
  so the first byte decides the test and the width says how many bytes are consumed.
  \<open>AnyCharNotNL\<close> is the dot (without the \<^verbatim>\<open>s\<close> flag it excludes the newline),
  \<open>NotLit c\<close> the class \<^verbatim>\<open>[^c]\<close>, \<open>Digit\<close> the class \<^verbatim>\<open>\d\<close>, \<open>BeginText\<close> and \<open>EndText\<close>
  the anchors \<^verbatim>\<open>^\<close> and \<^verbatim>\<open>$\<close> (without the \<^verbatim>\<open>m\<close> flag: start and end of the text).
\<close>

datatype regex =
    EmptyMatch
  | BeginText
  | EndText
  | Lit char
  | AnyCharNotNL
  | NotLit char
  | Digit
  | Cat regex regex
  | Quest regex
  | Plus regex

fun Lits :: "string \<Rightarrow> regex" where
  "Lits [] = EmptyMatch"
| "Lits (c # cs) = Cat (Lit c) (Lits cs)"

fun Cats :: "regex list \<Rightarrow> regex" where
  "Cats [] = EmptyMatch"
| "Cats (r # rs) = Cat r (Cats rs)"

text \<open>
  A position in the text is the pair of a flag (nothing has been read yet) and the rest of
  the text.  \<open>step1 ok p\<close> reads one code point when its first byte passes \<open>ok\<close>.
\<close>

type_synonym position = "bool \<times> string"

definition step1 :: "(char \<Rightarrow> bool) \<Rightarrow> position \<Rightarrow> position list" where
  "step1 ok p =
     (case snd p of
        [] \<Rightarrow> []
      | c # cs \<Rightarrow> if ok c then [(False, drop (DecodeRune_width (c # cs)) (c # cs))] else [])"

text \<open>
  \<open>rmatch r p\<close> lists the positions at which a match of \<open>r\<close> that begins at \<open>p\<close> can
  end.  A repetition goes round again only from a position further on in the text.
\<close>

function rmatch :: "regex \<Rightarrow> position \<Rightarrow> position list" where
  "rmatch EmptyMatch p = [p]"
| "rmatch BeginText p = (if fst p then [p] else [])"
| "rmatch EndText p = (if snd p = [] then [p] else [])"
| "rmatch (Lit c) p = step1 (\<lambda>x. x = c) p"
| "rmatch AnyCharNotNL p = step1 (\<lambda>x. x \<noteq> CHR 0x0A) p"
| "rmatch (NotLit c) p = step1 (\<lambda>x. x \<noteq> c) p"
| "rmatch Digit p = step1 (\<lambda>x. CHR ''0'' \<le> x \<and> x \<le> CHR ''9'') p"
| "rmatch (Cat r1 r2) p = concat (map (rmatch r2) (rmatch r1 p))"
| "rmatch (Quest r) p = rmatch r p @ [p]"
| "rmatch (Plus r) p =
     (let ends = rmatch r p
      in ends @
         concat (map (\<lambda>q. if length (snd q) < length (snd p) then rmatch (Plus r) q else [])
                   ends))"
  by pat_completeness auto
termination
  by (relation "measures [\<lambda>(r, p). size r, \<lambda>(r, p). length (snd p)]") auto

text \<open>
  \<^verbatim>\<open>MatchString\<close> looks for a match that begins anywhere in the text: at the start, or
  after any number of code points.
\<close>

function search :: "regex \<Rightarrow> position \<Rightarrow> bool" where
  "search re p =
     (if rmatch re p \<noteq> [] then True
      else if snd p = [] then False
      else search re (False, drop (DecodeRune_width (snd p)) (snd p)))"
  by pat_completeness auto
termination
  by (relation "measure (\<lambda>(re, p). length (snd p))")
     (auto simp add: neq_Nil_conv split: option.split)

definition MatchString :: "regex \<Rightarrow> string \<Rightarrow> bool" where
  "MatchString re s = search re (True, s)"

text \<open>\<^verbatim>\<open>^(\[\d+/\d+] )?including [^ ]+ ...$\<close>\<close>

definition katiIncludeRe :: regex where
  "katiIncludeRe =
     Cats [BeginText,
           Quest (Cats [Lit CHR ''['', Plus Digit, Lit CHR ''/'', Plus Digit, Lits ''] '']),
           Lits ''including '',
           Plus (NotLit CHR '' ''),
           Lit CHR '' '', AnyCharNotNL, AnyCharNotNL, AnyCharNotNL,
           EndText]"

text \<open>
  For stating which lines match: the number of code points of a string, as
  \<^verbatim>\<open>utf8.RuneCountInString\<close> counts them, and the positions that repeated matches of an
  expression lead to.
\<close>

function RuneCountInString :: "string \<Rightarrow> nat" where
  "RuneCountInString s =
     (if s = [] then 0 else Suc (RuneCountInString (drop (DecodeRune_width s) s)))"
  by pat_completeness auto
termination
  by (relation "measure length") (auto simp add: neq_Nil_conv split: option.split)

declare RuneCountInString.simps [simp del]

inductive iter :: "regex \<Rightarrow> position \<Rightarrow> position \<Rightarrow> bool" for r where
  once: "q \<in> set (rmatch r p) \<Longrightarrow> iter r p q"
| more: "q1 \<in> set (rmatch r p) \<Longrightarrow> iter r q1 q \<Longrightarrow> iter r p q"

subsection \<open>The two sinks and what the context logs\<close>

text \<open>
  \<^verbatim>\<open>ctx.Stdout()\<close> is the interactive sink and \<^verbatim>\<open>ctx.Stderr()\<close> the secondary one.  Every call
  that leaves the function (a write to a sink, a log line, a call of the configuration's
  setter, a call of the file system) is an event, and a run is the list of its events in
  the order of the calls, so that the order of writes to different sinks stays visible.
  An \<^verbatim>\<open>error\<close> is represented by its text.
\<close>

datatype sink = Stdout | Stderr

datatype event =
    Write sink string
  | Verbosef string string
  | Println "string list"
  | SetKatiSuffix string
  | WriteFile string string nat
  | BeginTrace string
  | EndTrace
  | StdoutPipe
  | VerboselnCommand
  | Start
  | Wait

definition Fprint :: "sink \<Rightarrow> string list \<Rightarrow> event" where
  \<comment> \<open>\<^verbatim>\<open>fmt.Fprint\<close> of strings: the operands back to back, in one write\<close>
  "Fprint w operands = Write w (concat operands)"

fun Fprintln :: "sink \<Rightarrow> string list \<Rightarrow> event" where
  \<comment> \<open>\<^verbatim>\<open>fmt.Fprintln\<close>: the operands separated by spaces, then a newline, in one write\<close>
  "Fprintln w operands = Write w (Join operands '' '' @ [CHR 0x0A])"

subsection \<open>\<^verbatim>\<open>stripAnsiEscapes\<close>\<close>

text \<open>
  Modelled from the spec: \<^verbatim>\<open>stripAnsiEscapes\<close> (ui/build/util.go is not among the sources).
  The spec: the line has any embedded terminal colour or cursor escape sequences stripped,
  that is, the same line is emitted with the escape sequence removed and all other
  characters preserved.  An escape sequence is read here as a control sequence: the escape
  character, an opening square bracket, and everything up to and including the first letter
  after them (the whole rest of the line when no letter follows).
\<close>

definition isLetter :: "char \<Rightarrow> bool" where
  "isLetter c = ((CHR ''a'' \<le> c \<and> c \<le> CHR ''z'') \<or> (CHR ''A'' \<le> c \<and> c \<le> CHR ''Z''))"

fun skipSequence :: "string \<Rightarrow> string" where
  "skipSequence [] = []"
| "skipSequence (c # cs) = (if isLetter c then cs else skipSequence cs)"

function stripAnsiEscapes :: "string \<Rightarrow> string" where
  "stripAnsiEscapes [] = []"
| "stripAnsiEscapes [c] = [c]"
| "stripAnsiEscapes (c # d # cs) =
     (if c = CHR 0x1B \<and> d = CHR ''['' then stripAnsiEscapes (skipSequence cs)
      else c # stripAnsiEscapes (d # cs))"
  by pat_completeness auto
termination
proof (relation "measure length")
  show "wf (measure length)" by simp
next
  fix c d :: char and cs :: string
  have "length (skipSequence xs) \<le> length xs" for xs
    by (induction xs) auto
  from this[of cs] show "(skipSequence cs, c # d # cs) \<in> measure length"
    by simp
next
  fix c d :: char and cs :: string
  show "(d # cs, c # d # cs) \<in> measure length" by simp
qed

subsection \<open>\<^verbatim>\<open>katiRewriteOutput\<close>\<close>

text \<open>
  The state of the loop: the flag \<^verbatim>\<open>haveBlankLine\<close> and the events so far.  The flag is
  true when the terminal is at a fresh line (\<open>BLANK\<close>), false when it shows a progress
  line that is not terminated (\<open>TRANSIENT_HELD\<close>).

  The scanner hands the loop the lines of the stream one by one.  \<^verbatim>\<open>termWidth\<close> asks the
  terminal at the moment of the call, so its answer is an input that comes with the line:
  \<open>Some max\<close> for \<^verbatim>\<open>(max, true)\<close>, \<open>None\<close> when no width is available.
\<close>

record render =
  haveBlankLine :: bool
  events :: "event list"

definition emit :: "event \<Rightarrow> render \<Rightarrow> render" where
  "emit e st = st\<lparr>events := events st @ [e]\<rparr>"

definition verbose :: "string \<Rightarrow> bool" where
  "verbose line = MatchString katiIncludeRe line"

definition limitWidth :: "nat option \<Rightarrow> string \<Rightarrow> string" where
  "limitWidth tw line =
     (case tw of
        Some max_w \<Rightarrow> if length line > max_w then take max_w line else line
      | None \<Rightarrow> line)"

definition katiRewriteLine :: "bool \<Rightarrow> render \<Rightarrow> string \<times> nat option \<Rightarrow> render" where
  "katiRewriteLine smartTerminal st input =
     (case input of (line, tw) \<Rightarrow>
        if smartTerminal \<and> verbose line then
          (let line = limitWidth tw line;
               st = emit (Fprint Stdout [[CHR 0x0D], line, [CHR 0x1B, CHR ''['', CHR ''K'']]) st
           in st\<lparr>haveBlankLine := False\<rparr>)
        else
          (let (st, line) =
                 (if smartTerminal \<and> \<not> haveBlankLine st then
                    ((emit (Fprintln Stdout []) st)\<lparr>haveBlankLine := True\<rparr>, line)
                  else if \<not> smartTerminal then (st, stripAnsiEscapes line)
                  else (st, line))
           in emit (Fprintln Stderr [line]) st))"

definition katiRewriteLoop :: "bool \<Rightarrow> render \<Rightarrow> (string \<times> nat option) list \<Rightarrow> render" where
  "katiRewriteLoop smartTerminal st pipe = foldl (katiRewriteLine smartTerminal) st pipe"

definition katiRewriteOutput :: "bool \<Rightarrow> event list \<Rightarrow> (string \<times> nat option) list \<Rightarrow> event list" where
  "katiRewriteOutput smartTerminal evs pipe =
     (let st = katiRewriteLoop smartTerminal \<lparr>haveBlankLine = True, events = evs\<rparr> pipe
      in if \<not> haveBlankLine st then events (emit (Fprintln Stdout []) st) else events st)"

text \<open>What a sink has received: the texts written to it, in order.\<close>

fun written :: "sink \<Rightarrow> event list \<Rightarrow> string" where
  "written w [] = []"
| "written w (Write w' s # es) = (if w' = w then s @ written w es else written w es)"
| "written w (_ # es) = written w es"

subsection \<open>\<^verbatim>\<open>genKatiSuffix\<close>\<close>

text \<open>
  The part of the build configuration that this file reads and writes.  \<^verbatim>\<open>Environment().Get\<close>
  is a lookup.  \<^verbatim>\<open>KatiNinjaFile\<close> is a method of the configuration defined elsewhere; it
  is a parameter \<open>ninjaFile\<close> here, applied to the configuration as it is at the call.
  \<^verbatim>\<open>md5.Sum\<close> is a parameter too; its result type \<^verbatim>\<open>[16]byte\<close> is a word of 128 bits, the
  first byte the most significant.  The outcome of \<^verbatim>\<open>ioutil.WriteFile\<close> is an input:
  \<open>None\<close> for success, \<open>Some err\<close> for an error.
\<close>

record Config =
  TargetProduct :: string
  KatiArgs :: "string list"
  Environment :: "string \<rightharpoonup> string"
  KatiSuffix :: string

definition spaceSlashReplacer_Replace :: "string \<Rightarrow> string" where
  "spaceSlashReplacer_Replace s =
     map (\<lambda>c. if c = CHR ''/'' then CHR ''_'' else if c = CHR '' '' then CHR ''_'' else c) s"

definition hexdigit :: "nat \<Rightarrow> char" where
  "hexdigit n = ''0123456789abcdef'' ! (n mod 16)"

definition Sprintf_x :: "128 word \<Rightarrow> string" where
  \<comment> \<open>\<^verbatim>\<open>fmt.Sprintf("%x", sum)\<close> of a \<^verbatim>\<open>[16]byte\<close>: two lower-case hex digits for each byte\<close>
  "Sprintf_x digest = map (\<lambda>i. hexdigit (unat (drop_bit (4 * (31 - i)) digest) mod 16)) [0..<32]"

definition TrimSuffix :: "string \<Rightarrow> string \<Rightarrow> string" where
  "TrimSuffix s suffix =
     (if length suffix \<le> length s \<and> drop (length s - length suffix) s = suffix
      then take (length s - length suffix) s else s)"

text \<open>Lines 37 to 43: the suffix that encodes the product, the arguments and the makefile.\<close>

definition fullKatiSuffix :: "Config \<Rightarrow> string" where
  "fullKatiSuffix config =
     (let katiSuffix = ''-'' @ TargetProduct config;
          katiSuffix =
            (if length (KatiArgs config) > 0
             then katiSuffix @ ''-'' @ spaceSlashReplacer_Replace (Join (KatiArgs config) ''_'')
             else katiSuffix);
          katiSuffix =
            (case Environment config ''ONE_SHOT_MAKEFILE'' of
               Some oneShot \<Rightarrow> katiSuffix @ ''-'' @ spaceSlashReplacer_Replace oneShot
             | None \<Rightarrow> katiSuffix)
      in katiSuffix)"

definition genKatiSuffix ::
  "(string \<Rightarrow> 128 word) \<Rightarrow> (Config \<Rightarrow> string) \<Rightarrow> string option \<Rightarrow> Config \<Rightarrow> Config \<times> event list"
where
  "genKatiSuffix md5_Sum ninjaFile writeErr config =
     (let katiSuffix = fullKatiSuffix config
      in if length katiSuffix > 64 then
           (let shortSuffix = ''-'' @ Sprintf_x (md5_Sum katiSuffix);
                config = config\<lparr>KatiSuffix := shortSuffix\<rparr>;
                evs = [SetKatiSuffix shortSuffix,
                       Verbosef ''Kati ninja suffix too long: %q'' katiSuffix,
                       Verbosef ''Replacing with: %q'' shortSuffix,
                       WriteFile (TrimSuffix (ninjaFile config) ''ninja'' @ ''suf'') katiSuffix 0x1FF]
            in case writeErr of
                 Some err \<Rightarrow> (config, evs @ [Println [''Error writing suffix file:'', err]])
               | None \<Rightarrow> (config, evs))
         else (config\<lparr>KatiSuffix := katiSuffix\<rparr>, [SetKatiSuffix katiSuffix]))"

subsection \<open>\<^verbatim>\<open>runKati\<close>\<close>

text \<open>
  What the operating system answers during one run is an input: whether the pipe could be
  made, whether the process started, the lines it printed, and how the wait for it ended.
  The argument vector that lines 68 to 93 assemble goes to the operating system with the
  command and into one log line (\<open>VerboselnCommand\<close>); it has no influence on the control
  flow and is left out.

  The state of a process that has ended is its exit status, \<open>None\<close> for a process that did
  not exit by itself (one ended by a signal), and the text that \<^verbatim>\<open>ProcessState.String()\<close>
  gives for it, such as \<^verbatim>\<open>exit status 2\<close> or \<^verbatim>\<open>signal: killed\<close>.  \<^verbatim>\<open>Success\<close> is exit
  status zero.
\<close>

record ProcessState =
  exitStatus :: "nat option"
  String :: string

definition Success :: "ProcessState \<Rightarrow> bool" where
  "Success state = (exitStatus state = Some 0)"

text \<open>
  Waiting for the process either fails with an error or gives the state of the ended
  process.  \<^verbatim>\<open>cmd.Wait\<close> of the library \<^verbatim>\<open>os/exec\<close> returns the error of a failed wait as it
  is, an \<^verbatim>\<open>*exec.ExitError\<close> holding the state when the state is not \<^verbatim>\<open>Success\<close>, and \<^verbatim>\<open>nil\<close>
  otherwise: the command writes both output streams to the one pipe and reads no input, so
  there is no copying that could fail.
\<close>

datatype process = WaitFailed string | Ended ProcessState

datatype wait_result = WaitNil | ExitError ProcessState | WaitError string

definition cmd_Wait :: "process \<Rightarrow> wait_result" where
  "cmd_Wait p =
     (case p of
        WaitFailed err \<Rightarrow> WaitError err
      | Ended state \<Rightarrow> if Success state then WaitNil else ExitError state)"

record os_run =
  isTerminal :: bool
  writeFileErr :: "string option"
  pipeErr :: "string option"
  startErr :: "string option"
  pipeLines :: "(string \<times> nat option) list"
  waited :: process

text \<open>
  Modelled from the spec: \<^verbatim>\<open>ctx.Fatalln\<close> (ui/logger is not among the sources).  The spec:
  a fatal condition is reported and aborts the orchestration step.  So the run ends there,
  with the operands of the report as its outcome, and the list of events ends with the
  last call before the report; the deferred \<^verbatim>\<open>EndTrace\<close> is recorded for a run that returns.
\<close>

datatype outcome = Returned | Fatalln "string list"

definition runKati ::
  "(string \<Rightarrow> 128 word) \<Rightarrow> (Config \<Rightarrow> string) \<Rightarrow> os_run \<Rightarrow> Config \<Rightarrow> outcome \<times> Config \<times> event list"
where
  "runKati md5_Sum ninjaFile os config =
     (case genKatiSuffix md5_Sum ninjaFile (writeFileErr os) config of (config, evs) \<Rightarrow>
      let evs = [BeginTrace ''kati''] @ evs @ [StdoutPipe] in
      case pipeErr os of
        Some err \<Rightarrow> (Fatalln [''Error getting output pipe for ckati:'', err], config, evs)
      | None \<Rightarrow>
      let evs = evs @ [VerboselnCommand, Start] in
      case startErr os of
        Some err \<Rightarrow> (Fatalln [''Failed to run ckati:'', err], config, evs)
      | None \<Rightarrow>
      let evs = katiRewriteOutput (isTerminal os) evs (pipeLines os);
          evs = evs @ [Wait] in
      case cmd_Wait (waited os) of
        ExitError e \<Rightarrow> (Fatalln [''ckati failed with:'', String e], config, evs)
      | WaitError err \<Rightarrow> (Fatalln [''Failed to run ckati:'', err], config, evs)
      | WaitNil \<Rightarrow> (Returned, config, evs @ [EndTrace]))"

subsection \<open>The fatal outcomes as the specification lists them\<close>

text \<open>
  The specification's account of a run, to be compared with \<open>runKati\<close>.  It has two kinds
  of fatal error: \<open>LaunchFailure\<close>, the external tool could not be started, which is so
  when its output pipe cannot be made as well as when starting the process fails; and
  \<open>AbnormalExit\<close>, the tool started but exited non-zero or was terminated abnormally, which
  is every end of the wait other than an exit with status zero.  A tool that started and
  exited with status zero gives no fatal error.
\<close>

datatype fatal_kind = LaunchFailure | AbnormalExit

definition fatal_kind_spec :: "os_run \<Rightarrow> fatal_kind option" where
  "fatal_kind_spec os =
     (if pipeErr os \<noteq> None \<or> startErr os \<noteq> None then Some LaunchFailure
      else case waited os of
             WaitFailed err \<Rightarrow> Some AbnormalExit
           | Ended state \<Rightarrow> if exitStatus state = Some 0 then None else Some AbnormalExit)"

definition is_Write :: "event \<Rightarrow> bool" where
  "is_Write e = (case e of Write w s \<Rightarrow> True | _ \<Rightarrow> False)"

subsection \<open>Stand-ins for the examples\<close>

text \<open>
  The theorems below hold for every digest function and every \<^verbatim>\<open>KatiNinjaFile\<close>.  Where an
  example needs to run, the digest is the stand-in \<open>sample_Sum\<close> (the length of the
  input, as a number of 128 bits) and the ninja file is named after the suffix as
  \<open>sample_KatiNinjaFile\<close> does.
\<close>

definition sample_Sum :: "string \<Rightarrow> 128 word" where
  "sample_Sum s = of_nat (length s)"

definition sample_KatiNinjaFile :: "Config \<Rightarrow> string" where
  "sample_KatiNinjaFile config = ''out/build'' @ KatiSuffix config @ ''.ninja''"

subsection \<open>Lines with control sequences\<close>

text \<open>
  For stating what \<^verbatim>\<open>stripAnsiEscapes\<close> does to a line with any number of control
  sequences.  A text is plain when no control sequence begins in it, that is, when no escape
  character in it is followed by an opening square bracket.  A line with sequences is given
  by its pieces in order, each a plain text, then the parameters and the final letter of
  the control sequence that follows the text, and by the plain text behind the last
  sequence.
\<close>

fun plain :: "string \<Rightarrow> bool" where
  "plain [] = True"
| "plain [c] = True"
| "plain (c # d # cs) = (if c = CHR 0x1B \<and> d = CHR ''['' then False else plain (d # cs))"

fun withSequences :: "(string \<times> string \<times> char) list \<Rightarrow> string \<Rightarrow> string" where
  "withSequences [] behind = behind"
| "withSequences ((text, params, final) # pieces) behind =
     text @ [CHR 0x1B, CHR ''[''] @ params @ [final] @ withSequences pieces behind"

definition sequences_ok :: "(string \<times> string \<times> char) list \<Rightarrow> bool" where
  "sequences_ok pieces =
     list_all (\<lambda>(text, params, final).
                 plain text \<and> list_all (\<lambda>c. \<not> isLetter c) params \<and> isLetter final) pieces"

section \<open>Properties of the registry\<close>

subsection \<open>One caller after the other\<close>

lemma newConfig_ok: "config_ok newConfig" "outputs newConfig = ([], [], [])"
  by (simp_all add: config_ok_def outputs_def newConfig_def)

lemma GetOutputs_ok:
  assumes "config_ok c"
  obtains a b d c' fl ml dl where "hiddenAPIGetOutputs c = ((a, b, d), c')"
    "onceStore c' hiddenAPIOutputsKey = Some (a, b, d)" "a \<noteq> b" "a \<noteq> d" "b \<noteq> d"
    "store c' a = Some fl" "store c' b = Some ml" "store c' d = Some dl"
    "outputs c = (fl, ml, dl)"
proof (cases "onceStore c hiddenAPIOutputsKey")
  case None
  define c' where "c' = snd (hiddenAPIGetOutputs c)"
  have g: "hiddenAPIGetOutputs c = ((nextAddr c, Suc (nextAddr c), Suc (Suc (nextAddr c))), c')"
    using None by (simp add: c'_def hiddenAPIGetOutputs_def Once_def new_Paths_def)
  have c': "c' = c\<lparr>store := (store c)(nextAddr c \<mapsto> [], Suc (nextAddr c) \<mapsto> [],
                                    Suc (Suc (nextAddr c)) \<mapsto> []),
                   nextAddr := Suc (Suc (Suc (nextAddr c))),
                   onceStore := (onceStore c)(hiddenAPIOutputsKey \<mapsto>
                      (nextAddr c, Suc (nextAddr c), Suc (Suc (nextAddr c))))\<rparr>"
    using None by (simp add: c'_def hiddenAPIGetOutputs_def Once_def new_Paths_def)
  show ?thesis
    by (rule that[OF g, of "[]" "[]" "[]"]) (simp_all add: c' None outputs_def)
next
  case (Some v)
  obtain a b d where v: "v = (a, b, d)" by (cases v)
  have g: "hiddenAPIGetOutputs c = ((a, b, d), c)"
    using Some v by (simp add: hiddenAPIGetOutputs_def Once_def)
  from Some v assms obtain fl ml dl where
    st: "store c a = Some fl" "store c b = Some ml" "store c d = Some dl"
    and ne: "a \<noteq> b" "a \<noteq> d" "b \<noteq> d"
    by (auto simp add: config_ok_def)
  show ?thesis
    by (rule that[OF g _ ne st]) (simp_all add: Some v outputs_def pathsAt_def st)
qed

lemma config_ok_upd:
  assumes "onceStore c hiddenAPIOutputsKey = Some (a, b, d)" "a \<noteq> b" "a \<noteq> d" "b \<noteq> d"
    "store c a = Some fl" "store c b = Some ml" "store c d = Some dl"
  shows "config_ok c" "outputs c = (fl, ml, dl)"
  using assms by (simp_all add: config_ok_def outputs_def pathsAt_def)

lemma SaveCSV_ok:
  assumes "config_ok c" "outputs c = (fl, ml, dl)"
  shows "\<exists>c'. hiddenAPISaveCSVOutputs c f m = Some c' \<and> config_ok c' \<and> outputs c' = (fl @ [f], ml @ [m], dl)"
proof -
  from assms(1) obtain a b d c1 fl' ml' dl' where g: "hiddenAPIGetOutputs c = ((a, b, d), c1)"
    and o: "onceStore c1 hiddenAPIOutputsKey = Some (a, b, d)" and ne: "a \<noteq> b" "a \<noteq> d" "b \<noteq> d"
    and st: "store c1 a = Some fl'" "store c1 b = Some ml'" "store c1 d = Some dl'"
    and out: "outputs c = (fl', ml', dl')"
    by (rule GetOutputs_ok)
  define c2 where "c2 = c1\<lparr>store := (store c1)(a \<mapsto> fl @ [f], b \<mapsto> ml @ [m])\<rparr>"
  have eq: "fl' = fl" "ml' = ml" "dl' = dl" using out assms(2) by simp_all
  have r: "hiddenAPISaveCSVOutputs c f m = Some c2"
    using g st ne by (simp add: hiddenAPISaveCSVOutputs_def appendAt_def c2_def eq)
  have "onceStore c2 hiddenAPIOutputsKey = Some (a, b, d)" "store c2 a = Some (fl @ [f])"
    "store c2 b = Some (ml @ [m])" "store c2 d = Some dl"
    using ne by (auto simp add: c2_def o st eq)
  from config_ok_upd[OF this(1) ne this(2-)]
  have "config_ok c2" "outputs c2 = (fl @ [f], ml @ [m], dl)" .
  with r show ?thesis by blast
qed

lemma SaveDex_ok:
  assumes "config_ok c" "outputs c = (fl, ml, dl)"
  shows "\<exists>c'. hiddenAPISaveDexInputs c x = Some c' \<and> config_ok c' \<and> outputs c' = (fl, ml, dl @ [x])"
proof -
  from assms(1) obtain a b d c1 fl' ml' dl' where g: "hiddenAPIGetOutputs c = ((a, b, d), c1)"
    and o: "onceStore c1 hiddenAPIOutputsKey = Some (a, b, d)" and ne: "a \<noteq> b" "a \<noteq> d" "b \<noteq> d"
    and st: "store c1 a = Some fl'" "store c1 b = Some ml'" "store c1 d = Some dl'"
    and out: "outputs c = (fl', ml', dl')"
    by (rule GetOutputs_ok)
  define c2 where "c2 = c1\<lparr>store := (store c1)(d \<mapsto> dl @ [x])\<rparr>"
  have eq: "fl' = fl" "ml' = ml" "dl' = dl" using out assms(2) by simp_all
  have r: "hiddenAPISaveDexInputs c x = Some c2"
    using g st ne by (simp add: hiddenAPISaveDexInputs_def appendAt_def c2_def eq)
  have "onceStore c2 hiddenAPIOutputsKey = Some (a, b, d)" "store c2 a = Some fl"
    "store c2 b = Some ml" "store c2 d = Some (dl @ [x])"
    using ne by (auto simp add: c2_def o st eq)
  from config_ok_upd[OF this(1) ne this(2-)]
  have "config_ok c2" "outputs c2 = (fl, ml, dl @ [x])" .
  with r show ?thesis by blast
qed

lemma call_run_ok:
  assumes "config_ok c" "outputs c = (fl, ml, dl)"
  shows "\<exists>c'. call_run x c = Some c' \<and> config_ok c' \<and>
           outputs c' = (fl @ flagsOf x, ml @ metadataOf x, dl @ dexOf x)"
  using SaveCSV_ok[OF assms] SaveDex_ok[OF assms] by (cases x) simp_all

lemma calls_run_ok:
  assumes "config_ok c" "outputs c = (fl, ml, dl)"
  shows "\<exists>c'. calls_run xs c = Some c' \<and> config_ok c' \<and>
           outputs c' = (fl @ concat (map flagsOf xs), ml @ concat (map metadataOf xs),
                         dl @ concat (map dexOf xs))"
  using assms
proof (induction xs arbitrary: c fl ml dl)
  case Nil
  then show ?case by simp
next
  case (Cons x xs)
  from call_run_ok[OF Cons.prems, of x] obtain c1 where
    c1: "call_run x c = Some c1" "config_ok c1"
        "outputs c1 = (fl @ flagsOf x, ml @ metadataOf x, dl @ dexOf x)" by blast
  from Cons.IH[OF c1(2,3)] c1(1) show ?case by simp
qed

lemma MakeVars_ok:
  assumes "config_ok c" "outputs c = (fl, ml, dl)"
  shows "\<exists>c'. hiddenAPIMakeVars S c ctx =
           Some (ctx @ [(''SOONG_HIDDENAPI_FLAGS'', Join (sort_Strings (map S fl)) '' ''),
                        (''SOONG_HIDDENAPI_GREYLIST_METADATA'', Join (sort_Strings (map S ml)) '' ''),
                        (''SOONG_HIDDENAPI_DEX_INPUTS'', Join (sort_Strings (map S dl)) '' '')], c')
           \<and> config_ok c' \<and> outputs c' = (fl, ml, dl)"
proof -
  from assms(1) obtain a b d c1 fl' ml' dl' where g: "hiddenAPIGetOutputs c = ((a, b, d), c1)"
    and o: "onceStore c1 hiddenAPIOutputsKey = Some (a, b, d)" and ne: "a \<noteq> b" "a \<noteq> d" "b \<noteq> d"
    and st: "store c1 a = Some fl'" "store c1 b = Some ml'" "store c1 d = Some dl'"
    and out: "outputs c = (fl', ml', dl')"
    by (rule GetOutputs_ok)
  have eq: "fl' = fl" "ml' = ml" "dl' = dl" using out assms(2) by simp_all
  have r: "hiddenAPIMakeVars S c ctx =
           Some (ctx @ [(''SOONG_HIDDENAPI_FLAGS'', Join (sort_Strings (map S fl)) '' ''),
                        (''SOONG_HIDDENAPI_GREYLIST_METADATA'', Join (sort_Strings (map S ml)) '' ''),
                        (''SOONG_HIDDENAPI_DEX_INPUTS'', Join (sort_Strings (map S dl)) '' '')], c1)"
    using g st by (simp add: hiddenAPIMakeVars_def export_def Strict_def Paths_Strings_def eq)
  from config_ok_upd[OF o ne st]
  have "config_ok c1" "outputs c1 = (fl, ml, dl)" by (simp_all add: eq)
  with r show ?thesis by blast
qed

lemma mset_concat_map_cong:
  assumes "mset xs = mset ys"
  shows "mset (concat (map g xs)) = mset (concat (map g ys))"
proof -
  have "mset (concat (map g zs)) = sum_mset (image_mset (\<lambda>z. mset (g z)) (mset zs))" for zs
    by (induction zs) simp_all
  with assms show ?thesis by simp
qed

lemma sort_Strings_mset_cong:
  assumes "mset xs = mset ys"
  shows "sort_Strings (map S xs) = sort_Strings (map S ys)"
proof -
  have "mset (map S xs) = mset (map S ys)" using assms by (metis mset_map)
  then show ?thesis unfolding sort_Strings_def
    by (metis sorted_list_of_multiset_mset)
qed

lemma sort_Strings_sorted: "sorted (sort_Strings s) \<and> mset (sort_Strings s) = mset s"
  by (simp add: sort_Strings_def)

text \<open>
  Claim C1.  After any sequence of callers, starting from any configuration in order, the
  export step assigns to each of the three names the accumulated path strings of its list,
  sorted in the lexicographic order of the strings and joined with single spaces; the
  sorted sequence is a rearrangement of the accumulated one.  A sequence of the same callers
  arriving in another order leads to the very same assignments.  In particular, dex inputs
  \<open>b.jar\<close>, \<open>a.jar\<close> and \<open>c.jar\<close> arriving in this order are drained as
  \<open>a.jar\<close>, \<open>b.jar\<close>, \<open>c.jar\<close> and exported as \<open>a.jar b.jar c.jar\<close>.
\<close>

theorem export_sorted_order_independent:
  "(config_ok c \<and> mset xs = mset ys \<longrightarrow>
      (\<exists>c1 c2 r1 r2 fl ml dl vars.
          calls_run xs c = Some c1 \<and> outputs c1 = (fl, ml, dl) \<and>
          vars = [(''SOONG_HIDDENAPI_FLAGS'', Join (sort_Strings (Paths_Strings S fl)) '' ''),
                  (''SOONG_HIDDENAPI_GREYLIST_METADATA'', Join (sort_Strings (Paths_Strings S ml)) '' ''),
                  (''SOONG_HIDDENAPI_DEX_INPUTS'', Join (sort_Strings (Paths_Strings S dl)) '' '')] \<and>
          hiddenAPIMakeVars S c1 ctx = Some (ctx @ vars, r1) \<and>
          calls_run ys c = Some c2 \<and>
          hiddenAPIMakeVars S c2 ctx = Some (ctx @ vars, r2) \<and>
          sorted (sort_Strings (Paths_Strings S fl)) \<and>
          mset (sort_Strings (Paths_Strings S fl)) = mset (Paths_Strings S fl) \<and>
          sorted (sort_Strings (Paths_Strings S ml)) \<and>
          mset (sort_Strings (Paths_Strings S ml)) = mset (Paths_Strings S ml) \<and>
          sorted (sort_Strings (Paths_Strings S dl)) \<and>
          mset (sort_Strings (Paths_Strings S dl)) = mset (Paths_Strings S dl)))
   \<and> (\<exists>c1 fl ml r.
          calls_run [SaveDex ''b.jar'', SaveDex ''a.jar'', SaveDex ''c.jar''] newConfig = Some c1 \<and>
          outputs c1 = (fl, ml, [''b.jar'', ''a.jar'', ''c.jar'']) \<and>
          sort_Strings (Paths_Strings (\<lambda>p. p) [''b.jar'', ''a.jar'', ''c.jar''])
             = [''a.jar'', ''b.jar'', ''c.jar''] \<and>
          hiddenAPIMakeVars (\<lambda>p. p) c1 [] =
             Some ([(''SOONG_HIDDENAPI_FLAGS'', ''''),
                    (''SOONG_HIDDENAPI_GREYLIST_METADATA'', ''''),
                    (''SOONG_HIDDENAPI_DEX_INPUTS'', ''a.jar b.jar c.jar'')], r))"
proof (intro conjI impI)
  assume a: "config_ok c \<and> mset xs = mset ys"
  obtain fl0 ml0 dl0 where o: "outputs c = (fl0, ml0, dl0)" by (cases "outputs c")
  from a have ok: "config_ok c" and perm: "mset xs = mset ys" by simp_all
  from calls_run_ok[OF ok o, of xs] obtain c1 where
    c1: "calls_run xs c = Some c1" "config_ok c1"
        "outputs c1 = (fl0 @ concat (map flagsOf xs), ml0 @ concat (map metadataOf xs),
                       dl0 @ concat (map dexOf xs))" by blast
  from calls_run_ok[OF ok o, of ys] obtain c2 where
    c2: "calls_run ys c = Some c2" "config_ok c2"
        "outputs c2 = (fl0 @ concat (map flagsOf ys), ml0 @ concat (map metadataOf ys),
                       dl0 @ concat (map dexOf ys))" by blast
  from MakeVars_ok[OF c1(2,3), of S ctx] obtain r1 where
    r1: "hiddenAPIMakeVars S c1 ctx =
           Some (ctx @ [(''SOONG_HIDDENAPI_FLAGS'',
                         Join (sort_Strings (map S (fl0 @ concat (map flagsOf xs)))) '' ''),
                        (''SOONG_HIDDENAPI_GREYLIST_METADATA'',
                         Join (sort_Strings (map S (ml0 @ concat (map metadataOf xs)))) '' ''),
                        (''SOONG_HIDDENAPI_DEX_INPUTS'',
                         Join (sort_Strings (map S (dl0 @ concat (map dexOf xs)))) '' '')], r1)"
    by blast
  from MakeVars_ok[OF c2(2,3), of S ctx] obtain r2 where
    r2: "hiddenAPIMakeVars S c2 ctx =
           Some (ctx @ [(''SOONG_HIDDENAPI_FLAGS'',
                         Join (sort_Strings (map S (fl0 @ concat (map flagsOf ys)))) '' ''),
                        (''SOONG_HIDDENAPI_GREYLIST_METADATA'',
                         Join (sort_Strings (map S (ml0 @ concat (map metadataOf ys)))) '' ''),
                        (''SOONG_HIDDENAPI_DEX_INPUTS'',
                         Join (sort_Strings (map S (dl0 @ concat (map dexOf ys)))) '' '')], r2)"
    by blast
  have e: "sort_Strings (map S (l @ concat (map g ys))) = sort_Strings (map S (l @ concat (map g xs)))"
    for l and g :: "'a call \<Rightarrow> 'a list"
    by (rule sort_Strings_mset_cong) (simp add: mset_concat_map_cong[OF perm])
  show "\<exists>c1 c2 r1 r2 fl ml dl vars.
          calls_run xs c = Some c1 \<and> outputs c1 = (fl, ml, dl) \<and>
          vars = [(''SOONG_HIDDENAPI_FLAGS'', Join (sort_Strings (Paths_Strings S fl)) '' ''),
                  (''SOONG_HIDDENAPI_GREYLIST_METADATA'', Join (sort_Strings (Paths_Strings S ml)) '' ''),
                  (''SOONG_HIDDENAPI_DEX_INPUTS'', Join (sort_Strings (Paths_Strings S dl)) '' '')] \<and>
          hiddenAPIMakeVars S c1 ctx = Some (ctx @ vars, r1) \<and>
          calls_run ys c = Some c2 \<and>
          hiddenAPIMakeVars S c2 ctx = Some (ctx @ vars, r2) \<and>
          sorted (sort_Strings (Paths_Strings S fl)) \<and>
          mset (sort_Strings (Paths_Strings S fl)) = mset (Paths_Strings S fl) \<and>
          sorted (sort_Strings (Paths_Strings S ml)) \<and>
          mset (sort_Strings (Paths_Strings S ml)) = mset (Paths_Strings S ml) \<and>
          sorted (sort_Strings (Paths_Strings S dl)) \<and>
          mset (sort_Strings (Paths_Strings S dl)) = mset (Paths_Strings S dl)"
    using c1(1,3) c2(1) r1 r2
    by (simp add: e Paths_Strings_def sort_Strings_sorted del: map_append map_concat)
next
  have ok: "config_ok (newConfig :: string config)"
    and o: "outputs (newConfig :: string config) = ([], [], [])"
    by (simp_all add: config_ok_def outputs_def newConfig_def)
  from calls_run_ok[OF ok o, of "[SaveDex ''b.jar'', SaveDex ''a.jar'', SaveDex ''c.jar'']"]
  obtain c1 where c1: "calls_run [SaveDex ''b.jar'', SaveDex ''a.jar'', SaveDex ''c.jar''] newConfig = Some c1"
    "config_ok c1" "outputs c1 = ([], [], [''b.jar'', ''a.jar'', ''c.jar''])" by auto
  have s: "sort_Strings [''b.jar'', ''a.jar'', ''c.jar''] = [''a.jar'', ''b.jar'', ''c.jar'']"
    by (simp add: sort_Strings_def)
  from MakeVars_ok[OF c1(2,3), of "\<lambda>p. p" "[]"] c1(1,3) s
  show "\<exists>c1 fl ml r.
          calls_run [SaveDex ''b.jar'', SaveDex ''a.jar'', SaveDex ''c.jar''] newConfig = Some c1 \<and>
          outputs c1 = (fl, ml, [''b.jar'', ''a.jar'', ''c.jar'']) \<and>
          sort_Strings (Paths_Strings (\<lambda>p. p) [''b.jar'', ''a.jar'', ''c.jar''])
             = [''a.jar'', ''b.jar'', ''c.jar''] \<and>
          hiddenAPIMakeVars (\<lambda>p. p) c1 [] =
             Some ([(''SOONG_HIDDENAPI_FLAGS'', ''''),
                    (''SOONG_HIDDENAPI_GREYLIST_METADATA'', ''''),
                    (''SOONG_HIDDENAPI_DEX_INPUTS'', ''a.jar b.jar c.jar'')], r)"
    by (auto simp add: Paths_Strings_def sort_Strings_def)
qed

theorem export_sorted_order_independent_witness:
  "config_ok (newConfig :: string config) \<and>
   mset [SaveCSV ''f2.csv'' ''m2.csv'', SaveDex ''b.jar'', SaveCSV ''f1.csv'' ''m1.csv'', SaveDex ''a.jar'']
     = mset [SaveDex ''a.jar'', SaveCSV ''f1.csv'' ''m1.csv'', SaveDex ''b.jar'', SaveCSV ''f2.csv'' ''m2.csv''] \<and>
   (\<exists>c1 c2 r1 r2.
      calls_run [SaveCSV ''f2.csv'' ''m2.csv'', SaveDex ''b.jar'', SaveCSV ''f1.csv'' ''m1.csv'', SaveDex ''a.jar'']
         newConfig = Some c1 \<and>
      calls_run [SaveDex ''a.jar'', SaveCSV ''f1.csv'' ''m1.csv'', SaveDex ''b.jar'', SaveCSV ''f2.csv'' ''m2.csv'']
         newConfig = Some c2 \<and>
      outputs c1 = ([''f2.csv'', ''f1.csv''], [''m2.csv'', ''m1.csv''], [''b.jar'', ''a.jar'']) \<and>
      hiddenAPIMakeVars (\<lambda>p. p) c1 [] =
        Some ([(''SOONG_HIDDENAPI_FLAGS'', ''f1.csv f2.csv''),
               (''SOONG_HIDDENAPI_GREYLIST_METADATA'', ''m1.csv m2.csv''),
               (''SOONG_HIDDENAPI_DEX_INPUTS'', ''a.jar b.jar'')], r1) \<and>
      hiddenAPIMakeVars (\<lambda>p. p) c2 [] =
        Some ([(''SOONG_HIDDENAPI_FLAGS'', ''f1.csv f2.csv''),
               (''SOONG_HIDDENAPI_GREYLIST_METADATA'', ''m1.csv m2.csv''),
               (''SOONG_HIDDENAPI_DEX_INPUTS'', ''a.jar b.jar'')], r2))"
proof -
  let ?xs = "[SaveCSV ''f2.csv'' ''m2.csv'', SaveDex ''b.jar'', SaveCSV ''f1.csv'' ''m1.csv'', SaveDex ''a.jar'']"
  let ?ys = "[SaveDex ''a.jar'', SaveCSV ''f1.csv'' ''m1.csv'', SaveDex ''b.jar'', SaveCSV ''f2.csv'' ''m2.csv'']"
  have h: "config_ok (newConfig :: string config) \<and> mset ?xs = mset ?ys"
    by (simp add: config_ok_def newConfig_def)
  from export_sorted_order_independent [of newConfig ?xs ?ys "\<lambda>p. p" "[]"] h
  obtain c1 c2 r1 r2 fl ml dl where
    r: "calls_run ?xs newConfig = Some c1" "outputs c1 = (fl, ml, dl)"
       "hiddenAPIMakeVars (\<lambda>p. p) c1 [] =
          Some ([(''SOONG_HIDDENAPI_FLAGS'', Join (sort_Strings (Paths_Strings (\<lambda>p. p) fl)) '' ''),
                 (''SOONG_HIDDENAPI_GREYLIST_METADATA'', Join (sort_Strings (Paths_Strings (\<lambda>p. p) ml)) '' ''),
                 (''SOONG_HIDDENAPI_DEX_INPUTS'', Join (sort_Strings (Paths_Strings (\<lambda>p. p) dl)) '' '')], r1)"
       "calls_run ?ys newConfig = Some c2"
       "hiddenAPIMakeVars (\<lambda>p. p) c2 [] =
          Some ([(''SOONG_HIDDENAPI_FLAGS'', Join (sort_Strings (Paths_Strings (\<lambda>p. p) fl)) '' ''),
                 (''SOONG_HIDDENAPI_GREYLIST_METADATA'', Join (sort_Strings (Paths_Strings (\<lambda>p. p) ml)) '' ''),
                 (''SOONG_HIDDENAPI_DEX_INPUTS'', Join (sort_Strings (Paths_Strings (\<lambda>p. p) dl)) '' '')], r2)"
    by auto
  have "outputs c1 = ([''f2.csv'', ''f1.csv''], [''m2.csv'', ''m1.csv''], [''b.jar'', ''a.jar''])"
    using r(1)
    by (auto simp add: hiddenAPISaveCSVOutputs_def hiddenAPISaveDexInputs_def
          hiddenAPIGetOutputs_def Once_def new_Paths_def appendAt_def newConfig_def
          hiddenAPIOutputsKey_def outputs_def pathsAt_def)
  with r(2) have o: "fl = [''f2.csv'', ''f1.csv'']" "ml = [''m2.csv'', ''m1.csv'']"
    "dl = [''b.jar'', ''a.jar'']" by simp_all
  have s: "Join (sort_Strings (Paths_Strings (\<lambda>p. p) fl)) '' '' = ''f1.csv f2.csv''"
    "Join (sort_Strings (Paths_Strings (\<lambda>p. p) ml)) '' '' = ''m1.csv m2.csv''"
    "Join (sort_Strings (Paths_Strings (\<lambda>p. p) dl)) '' '' = ''a.jar b.jar''"
    by (simp_all add: o Paths_Strings_def sort_Strings_def)
  from h r o s show ?thesis by simp
qed

text \<open>
  Claim C8.  From any configuration in order the export step succeeds and assigns, in this
  order, a value to each of the three names; a name whose list has received no append
  (whether the lists were never created or were created and left empty) is drained as the
  empty sequence and assigned the empty string.
\<close>

theorem export_without_appends_is_empty:
  "config_ok c \<longrightarrow>
     (\<exists>fv mv dv c'.
        hiddenAPIMakeVars S c ctx =
          Some (ctx @ [(''SOONG_HIDDENAPI_FLAGS'', fv),
                       (''SOONG_HIDDENAPI_GREYLIST_METADATA'', mv),
                       (''SOONG_HIDDENAPI_DEX_INPUTS'', dv)], c') \<and>
        (fst (outputs c) = [] \<longrightarrow> sort_Strings (Paths_Strings S (fst (outputs c))) = [] \<and> fv = []) \<and>
        (fst (snd (outputs c)) = [] \<longrightarrow>
           sort_Strings (Paths_Strings S (fst (snd (outputs c)))) = [] \<and> mv = []) \<and>
        (snd (snd (outputs c)) = [] \<longrightarrow>
           sort_Strings (Paths_Strings S (snd (snd (outputs c)))) = [] \<and> dv = []))"
proof
  assume ok: "config_ok c"
  obtain fl ml dl where o: "outputs c = (fl, ml, dl)" by (cases "outputs c")
  from MakeVars_ok[OF ok o, of S ctx] o show
    "\<exists>fv mv dv c'.
        hiddenAPIMakeVars S c ctx =
          Some (ctx @ [(''SOONG_HIDDENAPI_FLAGS'', fv),
                       (''SOONG_HIDDENAPI_GREYLIST_METADATA'', mv),
                       (''SOONG_HIDDENAPI_DEX_INPUTS'', dv)], c') \<and>
        (fst (outputs c) = [] \<longrightarrow> sort_Strings (Paths_Strings S (fst (outputs c))) = [] \<and> fv = []) \<and>
        (fst (snd (outputs c)) = [] \<longrightarrow>
           sort_Strings (Paths_Strings S (fst (snd (outputs c)))) = [] \<and> mv = []) \<and>
        (snd (snd (outputs c)) = [] \<longrightarrow>
           sort_Strings (Paths_Strings S (snd (snd (outputs c)))) = [] \<and> dv = [])"
    by (auto simp add: sort_Strings_def Paths_Strings_def)
qed

theorem export_without_appends_is_empty_witness:
  "config_ok (newConfig :: string config) \<and>
   outputs (newConfig :: string config) = ([], [], []) \<and>
   (\<exists>c'. hiddenAPIMakeVars (\<lambda>p. p) (newConfig :: string config) [] =
      Some ([(''SOONG_HIDDENAPI_FLAGS'', ''''),
             (''SOONG_HIDDENAPI_GREYLIST_METADATA'', ''''),
             (''SOONG_HIDDENAPI_DEX_INPUTS'', '''')], c'))"
proof -
  have h: "config_ok (newConfig :: string config)"
    and o: "outputs (newConfig :: string config) = ([], [], [])"
    by (simp_all add: config_ok_def outputs_def newConfig_def)
  from export_without_appends_is_empty [of "newConfig :: string config" "\<lambda>p. p" "[]"] h o
  show ?thesis by auto
qed

subsection \<open>Callers that run side by side\<close>

lemma through_simps [simp]:
  "through q [] = {#}"
  "through q ((p, x) # todo) = (if p = q then {#x#} + through q todo else through q todo)"
  "through q (xs @ ys) = through q xs + through q ys"
  by (simp_all add: through_def)

lemma known_simps [simp]:
  "known ptrs []"
  "known (a, b, d) ((p, x) # todo) = ((p = a \<or> p = b \<or> p = d) \<and> known (a, b, d) todo)"
  by (simp_all add: known_def)

lemma appends_through:
  assumes "a \<noteq> b" "a \<noteq> d" "b \<noteq> d"
  shows "through a (appends call (a, b, d)) = mset (flagsOf call)"
    "through b (appends call (a, b, d)) = mset (metadataOf call)"
    "through d (appends call (a, b, d)) = mset (dexOf call)"
    "known (a, b, d) (appends call (a, b, d))"
  using assms by (cases call; simp)+

lemma start_through:
  assumes "a \<noteq> b" "a \<noteq> d" "b \<noteq> d"
  shows "through a (concat (map (\<lambda>call. appends call (a, b, d)) calls))
           = mset (concat (map flagsOf calls))"
    "through b (concat (map (\<lambda>call. appends call (a, b, d)) calls))
           = mset (concat (map metadataOf calls))"
    "through d (concat (map (\<lambda>call. appends call (a, b, d)) calls))
           = mset (concat (map dexOf calls))"
  by (induction calls) (simp_all add: appends_through [OF assms])

lemma start_no_inside:
  "filter inside (map (\<lambda>call. (call, NotStarted)) calls) = []"
  "list_all (caller_ok ptrs c) (map (\<lambda>call. (call, NotStarted)) calls)"
  by (induction calls) simp_all

lemma invariant_start:
  assumes "onceStore c hiddenAPIOutputsKey = Some (a, b, d)" "a \<noteq> b" "a \<noteq> d" "b \<noteq> d"
    "store c a = Some fl" "store c b = Some ml" "store c d = Some dl"
  shows "invariant fl ml dl calls (start calls c)"
  unfolding invariant_def start_def using assms
  by (simp add: start_through start_no_inside comp_def pathsAt_def)


text \<open>splitting the caller list at the one that moves\<close>

lemma split_at:
  assumes "i < length ts"
  shows "\<exists>pre post. ts = pre @ ts ! i # post \<and> (\<forall>t. ts[i := t] = pre @ t # post)"
proof -
  from assms have "ts = take i ts @ ts ! i # drop (Suc i) ts"
    by (rule id_take_nth_drop)
  moreover from assms have "\<forall>t. ts[i := t] = take i ts @ t # drop (Suc i) ts"
    by (simp add: upd_conv_take_nth_drop)
  ultimately show ?thesis by blast
qed

lemma caller_step_call:
  "caller_step t w = Some (t', w') \<Longrightarrow> fst t' = fst t"
  by (induction t w rule: caller_step.induct) (auto split: prod.splits option.splits if_splits)

lemma outside_caller_ok:
  "filter inside ts = [] \<Longrightarrow> list_all (caller_ok ptrs c) ts \<Longrightarrow> list_all (caller_ok ptrs c') ts"
proof (induction ts)
  case Nil
  then show ?case by simp
next
  case (Cons t ts)
  obtain call pl where t: "t = (call, pl)" by (cases t)
  from Cons show ?case
    by (cases pl) (simp_all add: t split: if_splits)
qed

lemma invariant_step:
  assumes inv: "invariant fl ml dl calls s" and st: "step i s = Some s'"
  shows "invariant fl ml dl calls s'"
proof -
  obtain ts w where s: "s = (ts, w)" by (cases s)
  from st s obtain t' w' where i: "i < length ts"
    and cs: "caller_step (ts ! i) w = Some (t', w')" and s': "s' = (ts[i := t'], w')"
    by (auto simp add: step_def split: if_splits option.splits)
  from split_at [OF i] obtain pre post where ts: "ts = pre @ ts ! i # post"
    and upd: "\<And>t. ts[i := t] = pre @ t # post"
    by blast
  obtain call pl where t: "ts ! i = (call, pl)" by (cases "ts ! i")
  from inv s obtain a b d where
    once: "onceStore (shared w) hiddenAPIOutputsKey = Some (a, b, d)"
    and ne: "a \<noteq> b" "a \<noteq> d" "b \<noteq> d"
    and dom: "store (shared w) a \<noteq> None" "store (shared w) b \<noteq> None" "store (shared w) d \<noteq> None"
    and calls: "map fst ts = calls"
    and handed: "list_all (\<lambda>q. q = (a, b, d)) (handed w)"
    and ok: "list_all (caller_ok (a, b, d) (shared w)) ts"
    and cnt: "length (filter inside ts) = (if locked w then 1 else 0)"
    and acc: "mset (pathsAt (shared w) a) + through a (concat (map (pending (a, b, d)) ts))
            = mset fl + mset (concat (map flagsOf calls))"
          "mset (pathsAt (shared w) b) + through b (concat (map (pending (a, b, d)) ts))
            = mset ml + mset (concat (map metadataOf calls))"
          "mset (pathsAt (shared w) d) + through d (concat (map (pending (a, b, d)) ts))
            = mset dl + mset (concat (map dexOf calls))"
    unfolding invariant_def by auto
  have get: "hiddenAPIGetOutputs (shared w) = ((a, b, d), shared w)"
    using once by (simp add: hiddenAPIGetOutputs_def Once_def)
  have ts': "ts = pre @ (call, pl) # post" using ts t by simp
  have ft: "fst t' = call" using caller_step_call [OF cs] t by simp
  have calls': "map fst (pre @ t' # post) = calls"
    using calls ft by (simp add: ts')
  from ok have ok3: "list_all (caller_ok (a, b, d) (shared w)) pre"
    "caller_ok (a, b, d) (shared w) (call, pl)" "list_all (caller_ok (a, b, d) (shared w)) post"
    by (simp_all add: ts')
  from cnt have cnt3: "length (filter inside pre) + (if inside (call, pl) then 1 else 0)
      + length (filter inside post) = (if locked w then 1 else 0)"
    by (auto simp add: ts' split: if_splits)
  from acc have acc3:
    "mset (pathsAt (shared w) a) + (through a (concat (map (pending (a, b, d)) pre))
        + through a (pending (a, b, d) (call, pl)) + through a (concat (map (pending (a, b, d)) post)))
       = mset fl + mset (concat (map flagsOf calls))"
    "mset (pathsAt (shared w) b) + (through b (concat (map (pending (a, b, d)) pre))
        + through b (pending (a, b, d) (call, pl)) + through b (concat (map (pending (a, b, d)) post)))
       = mset ml + mset (concat (map metadataOf calls))"
    "mset (pathsAt (shared w) d) + (through d (concat (map (pending (a, b, d)) pre))
        + through d (pending (a, b, d) (call, pl)) + through d (concat (map (pending (a, b, d)) post)))
       = mset dl + mset (concat (map dexOf calls))"
    by (simp_all add: ts' add.assoc)
  show ?thesis
  proof (cases pl)
    case NotStarted
    with cs t get have r: "t' = (call, Waiting (appends call (a, b, d)))"
      "w' = w\<lparr>shared := shared w, handed := handed w @ [(a, b, d)]\<rparr>"
      by auto
    show ?thesis
      unfolding invariant_def s' upd
      apply (simp only: prod.case)
      apply (rule exI [of _ a], rule exI [of _ b], rule exI [of _ d])
      using once ne dom calls' handed ok3 cnt3 acc3 NotStarted
      apply (simp add: r add.assoc)
      done
  next
    case (Waiting todo)
    with cs t have r: "t' = (call, Holding todo)" "w' = w\<lparr>locked := True\<rparr>" and free: "\<not> locked w"
      by (auto split: if_splits)
    from ok3(2) Waiting have todo: "todo = appends call (a, b, d)" by simp
    show ?thesis
      unfolding invariant_def s' upd
      apply (simp only: prod.case)
      apply (rule exI [of _ a], rule exI [of _ b], rule exI [of _ d])
      using once ne dom calls' handed ok3 cnt3 acc3 Waiting free
      apply (simp add: r add.assoc todo appends_through)
      done
  next
    case (Holding todo)
    show ?thesis
    proof (cases todo)
      case Nil
      with Holding cs t have r: "t' = (call, Finished)" "w' = w\<lparr>locked := False\<rparr>"
        by auto
      from cnt3 Holding have "filter inside pre = []" "filter inside post = []"
        by (auto split: if_splits)
      then show ?thesis
        unfolding invariant_def s' upd
        apply (simp only: prod.case)
        apply (rule exI [of _ a], rule exI [of _ b], rule exI [of _ d])
        using once ne dom calls' handed ok3 acc3 Holding Nil
        apply (simp add: r add.assoc)
        done
    next
      case (Cons e todo')
      obtain p x where e: "e = (p, x)" by (cases e)
      from Cons e Holding cs t obtain vs where vs: "store (shared w) p = Some vs"
        and r: "t' = (call, Loaded p vs x todo')" "w' = w"
        by (auto split: option.splits)
      show ?thesis
        unfolding invariant_def s' upd
        apply (simp only: prod.case)
        apply (rule exI [of _ a], rule exI [of _ b], rule exI [of _ d])
        using once ne dom calls' handed ok3 cnt3 acc3 Holding Cons e vs
        apply (auto simp add: r add.assoc split: if_splits)
        done
    qed
  next
    case (Loaded p vs x todo)
    with cs t have r: "t' = (call, Holding todo)"
      "w' = w\<lparr>shared := (shared w)\<lparr>store := (store (shared w))(p \<mapsto> vs @ [x])\<rparr>\<rparr>"
      by auto
    from ok3(2) Loaded have vs: "store (shared w) p = Some vs" and p: "p = a \<or> p = b \<or> p = d"
      and k: "known (a, b, d) todo"
      by simp_all
    from cnt3 Loaded have out: "filter inside pre = []" "filter inside post = []"
      by (auto split: if_splits)
    have ok': "list_all (caller_ok (a, b, d) (shared w')) pre"
      "list_all (caller_ok (a, b, d) (shared w')) post"
      using out ok3 by (auto intro: outside_caller_ok)
    from cnt3 Loaded have cnt': "length (filter inside pre) + 1 + length (filter inside post)
       = (if locked w then 1 else 0)" by simp
    show ?thesis
      unfolding invariant_def s' upd
      apply (simp only: prod.case)
      apply (rule exI [of _ a], rule exI [of _ b], rule exI [of _ d])
      using once ne dom calls' handed ok' cnt' acc3 Loaded vs p k
      apply (auto simp add: r add.assoc pathsAt_def split: if_splits)
      done
  next
    case Finished
    with cs t show ?thesis by simp
  qed
qed


lemma invariant_run:
  "invariant fl ml dl calls s \<Longrightarrow> run_schedule sched s = Some s' \<Longrightarrow> invariant fl ml dl calls s'"
proof (induction sched arbitrary: s)
  case Nil
  then show ?case by simp
next
  case (Cons i sched)
  from Cons.prems(2) obtain s1 where s1: "step i s = Some s1" "run_schedule sched s1 = Some s'"
    by (auto split: option.splits)
  from Cons.IH [OF invariant_step [OF Cons.prems(1) s1(1)] s1(2)] show ?case .
qed

lemma step_start_created:
  assumes "hiddenAPIGetOutputs c = (ptrs, c1)" "hiddenAPIGetOutputs c1 = (ptrs, c1)"
  shows "step i (start calls c) = step i (start calls c1)"
  using assms by (simp add: step_def start_def)

lemma run_start_created:
  assumes "hiddenAPIGetOutputs c = (ptrs, c1)" "hiddenAPIGetOutputs c1 = (ptrs, c1)" "sched \<noteq> []"
  shows "run_schedule sched (start calls c) = run_schedule sched (start calls c1)"
  using assms(3) step_start_created [OF assms(1,2)] by (cases sched) simp_all

lemma invariant_reached:
  assumes ok: "config_ok c" and out: "outputs c = (fl, ml, dl)"
    and run: "run_schedule sched (start calls c) = Some s"
  shows "s = start calls c \<or> invariant fl ml dl calls s"
proof (cases sched)
  case Nil
  with run show ?thesis by simp
next
  case (Cons i rest)
  from ok obtain a b d c1 fl' ml' dl' where g: "hiddenAPIGetOutputs c = ((a, b, d), c1)"
    and o: "onceStore c1 hiddenAPIOutputsKey = Some (a, b, d)" and ne: "a \<noteq> b" "a \<noteq> d" "b \<noteq> d"
    and st: "store c1 a = Some fl'" "store c1 b = Some ml'" "store c1 d = Some dl'"
    and out': "outputs c = (fl', ml', dl')"
    by (rule GetOutputs_ok)
  from out out' have eq: "fl' = fl" "ml' = ml" "dl' = dl" by simp_all
  have g1: "hiddenAPIGetOutputs c1 = ((a, b, d), c1)"
    using o by (simp add: hiddenAPIGetOutputs_def Once_def)
  have "invariant fl ml dl calls (start calls c1)"
    using invariant_start [OF o ne st] by (simp add: eq)
  moreover have "run_schedule sched (start calls c1) = Some s"
    using run run_start_created [OF g g1, of sched calls] Cons by simp
  ultimately show ?thesis by (blast intro: invariant_run)
qed

lemma caller_can_step:
  assumes "list_all (caller_ok (a, b, d) (shared w)) ts"
    "store (shared w) a \<noteq> None" "store (shared w) b \<noteq> None" "store (shared w) d \<noteq> None"
    "t \<in> set ts" "snd t \<noteq> Finished" "inside t \<or> \<not> locked w"
  shows "caller_step t w \<noteq> None"
proof -
  obtain call pl where t: "t = (call, pl)" by (cases t)
  from assms(1,5) have ok: "caller_ok (a, b, d) (shared w) t" by (simp add: list_all_iff)
  show ?thesis
  proof (cases pl)
    case (Holding todo)
    show ?thesis
    proof (cases todo)
      case Nil
      with Holding t show ?thesis by simp
    next
      case (Cons e todo')
      obtain p x where e: "e = (p, x)" by (cases e)
      from ok t Holding Cons e assms(2-4) show ?thesis by auto
    qed
  qed (use t assms(6,7) in \<open>auto split: prod.splits\<close>)
qed

lemma in_set_step:
  assumes "t \<in> set ts" "caller_step t w \<noteq> None"
  shows "\<exists>i < length ts. step i (ts, w) \<noteq> None"
proof -
  from assms(1) obtain i where "i < length ts" "ts ! i = t" by (auto simp add: in_set_conv_nth)
  with assms(2) have "step i (ts, w) \<noteq> None" by (auto simp add: step_def)
  with \<open>i < length ts\<close> show ?thesis by blast
qed

lemma invariant_progress:
  assumes inv: "invariant fl ml dl calls (ts, w)" and nf: "\<not> list_all (\<lambda>t. snd t = Finished) ts"
  shows "\<exists>i < length ts. step i (ts, w) \<noteq> None"
proof -
  from inv obtain a b d where
    dom: "store (shared w) a \<noteq> None" "store (shared w) b \<noteq> None" "store (shared w) d \<noteq> None"
    and ok: "list_all (caller_ok (a, b, d) (shared w)) ts"
    and cnt: "length (filter inside ts) = (if locked w then 1 else 0)"
    unfolding invariant_def by auto
  show ?thesis
  proof (cases "locked w")
    case True
    with cnt have "filter inside ts \<noteq> []" by auto
    then obtain t where t: "t \<in> set ts" "inside t"
      by (metis filter_False)
    obtain call pl where "t = (call, pl)" by (cases t)
    with t(2) have "snd t \<noteq> Finished" by (cases pl) simp_all
    from caller_can_step [OF ok dom t(1) this] t(2)
    have "caller_step t w \<noteq> None" by simp
    with t(1) show ?thesis by (rule in_set_step)
  next
    case False
    from nf obtain t where t: "t \<in> set ts" "snd t \<noteq> Finished"
      by (auto simp add: list_all_iff)
    from caller_can_step [OF ok dom t] False
    have "caller_step t w \<noteq> None" by simp
    with t(1) show ?thesis by (rule in_set_step)
  qed
qed

lemma pending_finished:
  "list_all (\<lambda>t. snd t = Finished) ts \<Longrightarrow> concat (map (pending ptrs) ts) = []"
  by (induction ts) auto

lemma invariant_finished:
  assumes inv: "invariant fl ml dl calls (ts, w)" and fin: "list_all (\<lambda>t. snd t = Finished) ts"
  shows "\<exists>fl' ml' dl'. outputs (shared w) = (fl', ml', dl') \<and> config_ok (shared w) \<and>
           mset fl' = mset fl + mset (concat (map flagsOf calls)) \<and>
           mset ml' = mset ml + mset (concat (map metadataOf calls)) \<and>
           mset dl' = mset dl + mset (concat (map dexOf calls))"
proof -
  from inv obtain a b d where
    once: "onceStore (shared w) hiddenAPIOutputsKey = Some (a, b, d)"
    and ne: "a \<noteq> b" "a \<noteq> d" "b \<noteq> d"
    and dom: "store (shared w) a \<noteq> None" "store (shared w) b \<noteq> None" "store (shared w) d \<noteq> None"
    and acc: "mset (pathsAt (shared w) a) + through a (concat (map (pending (a, b, d)) ts))
            = mset fl + mset (concat (map flagsOf calls))"
          "mset (pathsAt (shared w) b) + through b (concat (map (pending (a, b, d)) ts))
            = mset ml + mset (concat (map metadataOf calls))"
          "mset (pathsAt (shared w) d) + through d (concat (map (pending (a, b, d)) ts))
            = mset dl + mset (concat (map dexOf calls))"
    unfolding invariant_def by auto
  from once ne dom have "config_ok (shared w)"
    "outputs (shared w) = (pathsAt (shared w) a, pathsAt (shared w) b, pathsAt (shared w) d)"
    by (simp_all add: config_ok_def outputs_def)
  with acc show ?thesis by (simp add: pending_finished [OF fin])
qed

lemma invariant_handed:
  assumes inv: "invariant fl ml dl calls (ts, w)"
  shows "list_all (\<lambda>q. q = fst (hiddenAPIGetOutputs (shared w))) (handed w)"
proof -
  from inv obtain a b d where
    once: "onceStore (shared w) hiddenAPIOutputsKey = Some (a, b, d)"
    and h: "list_all (\<lambda>q. q = (a, b, d)) (handed w)"
    unfolding invariant_def by auto
  from once have "fst (hiddenAPIGetOutputs (shared w)) = (a, b, d)"
    by (simp add: hiddenAPIGetOutputs_def Once_def)
  with h show ?thesis by simp
qed

lemma GetOutputs_again:
  assumes "config_ok c"
  shows "hiddenAPIGetOutputs (snd (hiddenAPIGetOutputs c)) = hiddenAPIGetOutputs c"
proof -
  from assms obtain a b d c1 fl' ml' dl' where g: "hiddenAPIGetOutputs c = ((a, b, d), c1)"
    and o: "onceStore c1 hiddenAPIOutputsKey = Some (a, b, d)"
    by (rule GetOutputs_ok)
  from o have "hiddenAPIGetOutputs c1 = ((a, b, d), c1)"
    by (simp add: hiddenAPIGetOutputs_def Once_def)
  with g show ?thesis by simp
qed


lemma invariant_config_ok:
  assumes inv: "invariant fl ml dl calls (ts, w)"
  shows "config_ok (shared w)"
  using inv unfolding invariant_def by (auto simp add: config_ok_def)

lemma start_progress:
  assumes "\<not> list_all (\<lambda>t. snd t = Finished) (fst (start calls c))"
  shows "\<exists>i < length (fst (start calls c)). step i (start calls c) \<noteq> None"
proof -
  from assms obtain call rest where calls: "calls = call # rest"
    by (cases calls) (simp_all add: start_def)
  have "step 0 (start calls c) \<noteq> None"
    by (simp add: step_def start_def calls split: prod.split)
  then show ?thesis by (auto simp add: start_def calls)
qed

lemma alone_SaveDex:
  assumes "config_ok c"
  shows "\<exists>w. run_schedule [0, 0, 0, 0, 0] (start [SaveDex x] c) = Some ([(SaveDex x, Finished)], w) \<and>
           hiddenAPISaveDexInputs c x = Some (shared w) \<and> \<not> locked w"
proof -
  from assms obtain a b d c1 fl ml dl where g: "hiddenAPIGetOutputs c = ((a, b, d), c1)"
    and st: "store c1 d = Some dl"
    by (rule GetOutputs_ok)
  then show ?thesis
    by (simp add: step_def start_def hiddenAPISaveDexInputs_def appendAt_def)
qed

lemma alone_SaveCSV:
  assumes "config_ok c"
  shows "\<exists>w. run_schedule [0, 0, 0, 0, 0, 0, 0] (start [SaveCSV f m] c)
             = Some ([(SaveCSV f m, Finished)], w) \<and>
           hiddenAPISaveCSVOutputs c f m = Some (shared w) \<and> \<not> locked w"
proof -
  from assms obtain a b d c1 fl ml dl where g: "hiddenAPIGetOutputs c = ((a, b, d), c1)"
    and ne: "a \<noteq> b" and st: "store c1 a = Some fl" "store c1 b = Some ml"
    by (rule GetOutputs_ok)
  then show ?thesis
    by (simp add: step_def start_def hiddenAPISaveCSVOutputs_def appendAt_def)
qed

text \<open>
  Claim C9.  Take any callers, any configuration in order, and any schedule of their steps.
  Whatever the schedule, every call of \<^verbatim>\<open>hiddenAPIGetOutputs\<close> made so far has returned the
  same three pointers, and they are the ones that any further call returns.  When all
  callers have returned, each of the three lists holds what it held at the start and, in
  some order, every path that a caller appended through it, nothing lost and nothing
  twice; and draining the collection then, with \<^verbatim>\<open>hiddenAPIMakeVars\<close>, succeeds and exports
  under each of the three names the sorted strings of exactly those paths, joined by
  spaces: for the dex inputs as many values as there were at the start plus one for each
  call of \<^verbatim>\<open>hiddenAPISaveDexInputs\<close>, which is one for each caller when every caller is
  such a call.  As long as a caller has not returned, some caller can take a step, so
  every schedule can be continued until all have returned.
\<close>

theorem callers_share_one_collection:
  "config_ok c \<and> outputs c = (fl, ml, dl) \<and> run_schedule sched (start calls c) = Some (ts, w) \<longrightarrow>
     list_all (\<lambda>q. q = fst (hiddenAPIGetOutputs (shared w))) (handed w)
   \<and> hiddenAPIGetOutputs (snd (hiddenAPIGetOutputs (shared w))) = hiddenAPIGetOutputs (shared w)
   \<and> (list_all (\<lambda>t. snd t = Finished) ts \<longrightarrow>
        (\<exists>fl' ml' dl' c'.
           outputs (shared w) = (fl', ml', dl') \<and>
           mset fl' = mset fl + mset (concat (map flagsOf calls)) \<and>
           mset ml' = mset ml + mset (concat (map metadataOf calls)) \<and>
           mset dl' = mset dl + mset (concat (map dexOf calls)) \<and>
           hiddenAPIMakeVars S (shared w) ctx =
             Some (ctx @
                   [(''SOONG_HIDDENAPI_FLAGS'',
                     Join (sort_Strings (Paths_Strings S (fl @ concat (map flagsOf calls)))) '' ''),
                    (''SOONG_HIDDENAPI_GREYLIST_METADATA'',
                     Join (sort_Strings (Paths_Strings S (ml @ concat (map metadataOf calls)))) '' ''),
                    (''SOONG_HIDDENAPI_DEX_INPUTS'',
                     Join (sort_Strings (Paths_Strings S (dl @ concat (map dexOf calls)))) '' '')],
                   c') \<and>
           sort_Strings (Paths_Strings S dl') =
             sort_Strings (Paths_Strings S (dl @ concat (map dexOf calls))) \<and>
           length (sort_Strings (Paths_Strings S dl')) = length dl + length (concat (map dexOf calls)) \<and>
           (list_all (\<lambda>call. case call of SaveDex p \<Rightarrow> True | SaveCSV f m \<Rightarrow> False) calls \<longrightarrow>
              length (sort_Strings (Paths_Strings S dl')) = length dl + length calls)))
   \<and> (\<not> list_all (\<lambda>t. snd t = Finished) ts \<longrightarrow> (\<exists>i < length ts. step i (ts, w) \<noteq> None))"
proof
  assume a: "config_ok c \<and> outputs c = (fl, ml, dl) \<and> run_schedule sched (start calls c) = Some (ts, w)"
  then have ok: "config_ok c" and out: "outputs c = (fl, ml, dl)"
    and run: "run_schedule sched (start calls c) = Some (ts, w)" by simp_all
  have all_dex: "length (concat (map dexOf calls)) = length calls"
    if "list_all (\<lambda>call. case call of SaveDex p \<Rightarrow> True | SaveCSV f m \<Rightarrow> False) calls"
    using that by (induction calls) (auto split: call.splits)
  have drained: "\<exists>fl' ml' dl' c'.
           outputs (shared w) = (fl', ml', dl') \<and>
           mset fl' = mset fl + mset (concat (map flagsOf calls)) \<and>
           mset ml' = mset ml + mset (concat (map metadataOf calls)) \<and>
           mset dl' = mset dl + mset (concat (map dexOf calls)) \<and>
           hiddenAPIMakeVars S (shared w) ctx =
             Some (ctx @
                   [(''SOONG_HIDDENAPI_FLAGS'',
                     Join (sort_Strings (Paths_Strings S (fl @ concat (map flagsOf calls)))) '' ''),
                    (''SOONG_HIDDENAPI_GREYLIST_METADATA'',
                     Join (sort_Strings (Paths_Strings S (ml @ concat (map metadataOf calls)))) '' ''),
                    (''SOONG_HIDDENAPI_DEX_INPUTS'',
                     Join (sort_Strings (Paths_Strings S (dl @ concat (map dexOf calls)))) '' '')],
                   c') \<and>
           sort_Strings (Paths_Strings S dl') =
             sort_Strings (Paths_Strings S (dl @ concat (map dexOf calls))) \<and>
           length (sort_Strings (Paths_Strings S dl')) = length dl + length (concat (map dexOf calls)) \<and>
           (list_all (\<lambda>call. case call of SaveDex p \<Rightarrow> True | SaveCSV f m \<Rightarrow> False) calls \<longrightarrow>
              length (sort_Strings (Paths_Strings S dl')) = length dl + length calls)"
    if r: "outputs (shared w) = (fl', ml', dl')" "config_ok (shared w)"
          "mset fl' = mset fl + mset (concat (map flagsOf calls))"
          "mset ml' = mset ml + mset (concat (map metadataOf calls))"
          "mset dl' = mset dl + mset (concat (map dexOf calls))"
    for fl' ml' dl'
  proof -
    from MakeVars_ok [OF r(2,1), of S ctx] obtain c' where
      mv: "hiddenAPIMakeVars S (shared w) ctx =
             Some (ctx @ [(''SOONG_HIDDENAPI_FLAGS'', Join (sort_Strings (map S fl')) '' ''),
                          (''SOONG_HIDDENAPI_GREYLIST_METADATA'', Join (sort_Strings (map S ml')) '' ''),
                          (''SOONG_HIDDENAPI_DEX_INPUTS'', Join (sort_Strings (map S dl')) '' '')], c')"
      by blast
    have e: "sort_Strings (map S fl') = sort_Strings (map S (fl @ concat (map flagsOf calls)))"
      "sort_Strings (map S ml') = sort_Strings (map S (ml @ concat (map metadataOf calls)))"
      "sort_Strings (map S dl') = sort_Strings (map S (dl @ concat (map dexOf calls)))"
      by (rule sort_Strings_mset_cong, simp add: r)+
    from r(5) have "size (mset dl') = size (mset dl + mset (concat (map dexOf calls)))"
      by simp
    then have len: "length dl' = length dl + length (concat (map dexOf calls))"
      by simp
    have len': "length (sort_Strings (map S dl')) = length dl + length (concat (map dexOf calls))"
      using len by (simp add: sort_Strings_def)
    from mv have mv': "hiddenAPIMakeVars S (shared w) ctx =
             Some (ctx @
                   [(''SOONG_HIDDENAPI_FLAGS'',
                     Join (sort_Strings (map S (fl @ concat (map flagsOf calls)))) '' ''),
                    (''SOONG_HIDDENAPI_GREYLIST_METADATA'',
                     Join (sort_Strings (map S (ml @ concat (map metadataOf calls)))) '' ''),
                    (''SOONG_HIDDENAPI_DEX_INPUTS'',
                     Join (sort_Strings (map S (dl @ concat (map dexOf calls)))) '' '')],
                   c')"
      by (simp only: e)
    from r(1,3,4,5) mv' e(3) len' all_dex show ?thesis
      unfolding Paths_Strings_def by (intro exI [of _ fl'] exI [of _ ml'] exI [of _ dl'] exI [of _ c'] conjI impI) simp_all
  qed
  from invariant_reached [OF ok out run]
  consider (first) "(ts, w) = start calls c" | (later) "invariant fl ml dl calls (ts, w)"
    by blast
  then show "list_all (\<lambda>q. q = fst (hiddenAPIGetOutputs (shared w))) (handed w)
   \<and> hiddenAPIGetOutputs (snd (hiddenAPIGetOutputs (shared w))) = hiddenAPIGetOutputs (shared w)
   \<and> (list_all (\<lambda>t. snd t = Finished) ts \<longrightarrow>
        (\<exists>fl' ml' dl' c'.
           outputs (shared w) = (fl', ml', dl') \<and>
           mset fl' = mset fl + mset (concat (map flagsOf calls)) \<and>
           mset ml' = mset ml + mset (concat (map metadataOf calls)) \<and>
           mset dl' = mset dl + mset (concat (map dexOf calls)) \<and>
           hiddenAPIMakeVars S (shared w) ctx =
             Some (ctx @
                   [(''SOONG_HIDDENAPI_FLAGS'',
                     Join (sort_Strings (Paths_Strings S (fl @ concat (map flagsOf calls)))) '' ''),
                    (''SOONG_HIDDENAPI_GREYLIST_METADATA'',
                     Join (sort_Strings (Paths_Strings S (ml @ concat (map metadataOf calls)))) '' ''),
                    (''SOONG_HIDDENAPI_DEX_INPUTS'',
                     Join (sort_Strings (Paths_Strings S (dl @ concat (map dexOf calls)))) '' '')],
                   c') \<and>
           sort_Strings (Paths_Strings S dl') =
             sort_Strings (Paths_Strings S (dl @ concat (map dexOf calls))) \<and>
           length (sort_Strings (Paths_Strings S dl')) = length dl + length (concat (map dexOf calls)) \<and>
           (list_all (\<lambda>call. case call of SaveDex p \<Rightarrow> True | SaveCSV f m \<Rightarrow> False) calls \<longrightarrow>
              length (sort_Strings (Paths_Strings S dl')) = length dl + length calls)))
   \<and> (\<not> list_all (\<lambda>t. snd t = Finished) ts \<longrightarrow> (\<exists>i < length ts. step i (ts, w) \<noteq> None))"
  proof cases
    case first
    then have w: "shared w = c" "handed w = []" and ts: "ts = map (\<lambda>call. (call, NotStarted)) calls"
      by (simp_all add: start_def)
    have fin: "calls = []" if "list_all (\<lambda>t. snd t = Finished) ts"
      using that ts by (cases calls) simp_all
    have prog: "\<exists>i < length ts. step i (ts, w) \<noteq> None"
      if "\<not> list_all (\<lambda>t. snd t = Finished) ts"
      using that start_progress [of calls c] first [symmetric] by simp
    have d: ?thesis if f: "list_all (\<lambda>t. snd t = Finished) ts"
    proof -
      from fin [OF f] have e: "calls = []" .
      from drained [of fl ml dl] out ok w(1) e have dr: "\<exists>fl' ml' dl' c'.
           outputs (shared w) = (fl', ml', dl') \<and>
           mset fl' = mset fl + mset (concat (map flagsOf calls)) \<and>
           mset ml' = mset ml + mset (concat (map metadataOf calls)) \<and>
           mset dl' = mset dl + mset (concat (map dexOf calls)) \<and>
           hiddenAPIMakeVars S (shared w) ctx =
             Some (ctx @
                   [(''SOONG_HIDDENAPI_FLAGS'',
                     Join (sort_Strings (Paths_Strings S (fl @ concat (map flagsOf calls)))) '' ''),
                    (''SOONG_HIDDENAPI_GREYLIST_METADATA'',
                     Join (sort_Strings (Paths_Strings S (ml @ concat (map metadataOf calls)))) '' ''),
                    (''SOONG_HIDDENAPI_DEX_INPUTS'',
                     Join (sort_Strings (Paths_Strings S (dl @ concat (map dexOf calls)))) '' '')],
                   c') \<and>
           sort_Strings (Paths_Strings S dl') =
             sort_Strings (Paths_Strings S (dl @ concat (map dexOf calls))) \<and>
           length (sort_Strings (Paths_Strings S dl')) = length dl + length (concat (map dexOf calls)) \<and>
           (list_all (\<lambda>call. case call of SaveDex p \<Rightarrow> True | SaveCSV f m \<Rightarrow> False) calls \<longrightarrow>
              length (sort_Strings (Paths_Strings S dl')) = length dl + length calls)"
        by simp
      from w f dr GetOutputs_again [OF ok] show ?thesis
        by (intro conjI impI) simp_all
    qed
    have n: ?thesis if nf: "\<not> list_all (\<lambda>t. snd t = Finished) ts"
      using w nf prog [OF nf] GetOutputs_again [OF ok] by (intro conjI impI) simp_all
    from d n show ?thesis by blast
  next
    case later
    have fin: "\<exists>fl' ml' dl' c'.
           outputs (shared w) = (fl', ml', dl') \<and>
           mset fl' = mset fl + mset (concat (map flagsOf calls)) \<and>
           mset ml' = mset ml + mset (concat (map metadataOf calls)) \<and>
           mset dl' = mset dl + mset (concat (map dexOf calls)) \<and>
           hiddenAPIMakeVars S (shared w) ctx =
             Some (ctx @
                   [(''SOONG_HIDDENAPI_FLAGS'',
                     Join (sort_Strings (Paths_Strings S (fl @ concat (map flagsOf calls)))) '' ''),
                    (''SOONG_HIDDENAPI_GREYLIST_METADATA'',
                     Join (sort_Strings (Paths_Strings S (ml @ concat (map metadataOf calls)))) '' ''),
                    (''SOONG_HIDDENAPI_DEX_INPUTS'',
                     Join (sort_Strings (Paths_Strings S (dl @ concat (map dexOf calls)))) '' '')],
                   c') \<and>
           sort_Strings (Paths_Strings S dl') =
             sort_Strings (Paths_Strings S (dl @ concat (map dexOf calls))) \<and>
           length (sort_Strings (Paths_Strings S dl')) = length dl + length (concat (map dexOf calls)) \<and>
           (list_all (\<lambda>call. case call of SaveDex p \<Rightarrow> True | SaveCSV f m \<Rightarrow> False) calls \<longrightarrow>
              length (sort_Strings (Paths_Strings S dl')) = length dl + length calls)"
      if f: "list_all (\<lambda>t. snd t = Finished) ts"
    proof -
      from invariant_finished [OF later f] obtain fl' ml' dl' where
        r: "outputs (shared w) = (fl', ml', dl')" "config_ok (shared w)"
           "mset fl' = mset fl + mset (concat (map flagsOf calls))"
           "mset ml' = mset ml + mset (concat (map metadataOf calls))"
           "mset dl' = mset dl + mset (concat (map dexOf calls))" by blast
      then show ?thesis by (rule drained)
    qed
    from invariant_handed [OF later] GetOutputs_again [OF invariant_config_ok [OF later]]
      fin invariant_progress [OF later]
    show ?thesis by blast
  qed
qed

theorem callers_share_one_collection_witness:
  "config_ok (newConfig :: string config) \<and>
   outputs (newConfig :: string config) = ([], [], []) \<and>
   (\<exists>ts w c'.
      run_schedule [0, 1, 2, 1, 1, 1, 1, 2, 2, 2, 2, 0, 0, 0, 0]
        (start [SaveDex ''a.jar'', SaveDex ''b.jar'', SaveDex ''c.jar''] newConfig) = Some (ts, w) \<and>
      map snd ts = [Finished, Finished, Finished] \<and>
      handed w = [(0, 1, 2), (0, 1, 2), (0, 1, 2)] \<and>
      outputs (shared w) = ([], [], [''b.jar'', ''c.jar'', ''a.jar'']) \<and>
      hiddenAPIMakeVars (\<lambda>p. p) (shared w) [] =
        Some ([(''SOONG_HIDDENAPI_FLAGS'', ''''),
               (''SOONG_HIDDENAPI_GREYLIST_METADATA'', ''''),
               (''SOONG_HIDDENAPI_DEX_INPUTS'', ''a.jar b.jar c.jar'')], c') \<and>
      sort_Strings (Paths_Strings (\<lambda>p. p) [''b.jar'', ''c.jar'', ''a.jar''])
        = [''a.jar'', ''b.jar'', ''c.jar''] \<and>
      length (sort_Strings (Paths_Strings (\<lambda>p. p) [''b.jar'', ''c.jar'', ''a.jar''])) = 3)"
proof -
  let ?calls = "[SaveDex ''a.jar'', SaveDex ''b.jar'', SaveDex ''c.jar'']"
  let ?sched = "[0, 1, 2, 1, 1, 1, 1, 2, 2, 2, 2, 0, 0, 0, 0] :: nat list"
  have h: "config_ok (newConfig :: string config)"
    and o: "outputs (newConfig :: string config) = ([], [], [])"
    by (simp_all add: config_ok_def outputs_def newConfig_def)
  obtain ts w where r: "run_schedule ?sched (start ?calls newConfig) = Some (ts, w)"
    and c: "map snd ts = [Finished, Finished, Finished]"
       "handed w = [(0, 1, 2), (0, 1, 2), (0, 1, 2)]"
       "outputs (shared w) = ([], [], [''b.jar'', ''c.jar'', ''a.jar''])"
    by (simp add: step_def start_def newConfig_def hiddenAPIGetOutputs_def Once_def
          new_Paths_def hiddenAPIOutputsKey_def outputs_def pathsAt_def eval_nat_numeral)
  from c(1) have f: "list_all (\<lambda>t. snd t = Finished) ts"
    by (auto simp add: list_all_iff)
  have d: "list_all (\<lambda>call. case call of SaveDex p \<Rightarrow> True | SaveCSV f m \<Rightarrow> False) ?calls"
    by simp
  from callers_share_one_collection
         [of "newConfig :: string config" "[]" "[]" "[]" ?sched ?calls ts w "\<lambda>p. p" "[]"] h o r f d
  obtain fl' ml' dl' c' where e:
    "outputs (shared w) = (fl', ml', dl')"
    "hiddenAPIMakeVars (\<lambda>p. p) (shared w) [] =
       Some ([] @
             [(''SOONG_HIDDENAPI_FLAGS'',
               Join (sort_Strings (Paths_Strings (\<lambda>p. p) ([] @ concat (map flagsOf ?calls)))) '' ''),
              (''SOONG_HIDDENAPI_GREYLIST_METADATA'',
               Join (sort_Strings (Paths_Strings (\<lambda>p. p) ([] @ concat (map metadataOf ?calls)))) '' ''),
              (''SOONG_HIDDENAPI_DEX_INPUTS'',
               Join (sort_Strings (Paths_Strings (\<lambda>p. p) ([] @ concat (map dexOf ?calls)))) '' '')],
             c')"
    "sort_Strings (Paths_Strings (\<lambda>p. p) dl') =
       sort_Strings (Paths_Strings (\<lambda>p. p) ([] @ concat (map dexOf ?calls)))"
    "length (sort_Strings (Paths_Strings (\<lambda>p. p) dl')) = length ([] :: string list) + length ?calls"
    by blast
  from e(1) c(3) have dl': "dl' = [''b.jar'', ''c.jar'', ''a.jar'']" by simp
  have s: "sort_Strings (Paths_Strings (\<lambda>p. p) [''a.jar'', ''b.jar'', ''c.jar''])
        = [''a.jar'', ''b.jar'', ''c.jar'']"
    by (simp add: Paths_Strings_def sort_Strings_def)
  from e(2) s have mv: "hiddenAPIMakeVars (\<lambda>p. p) (shared w) [] =
        Some ([(''SOONG_HIDDENAPI_FLAGS'', ''''),
               (''SOONG_HIDDENAPI_GREYLIST_METADATA'', ''''),
               (''SOONG_HIDDENAPI_DEX_INPUTS'', ''a.jar b.jar c.jar'')], c')"
    by (simp add: Paths_Strings_def sort_Strings_def)
  from e(3) s dl' have so: "sort_Strings (Paths_Strings (\<lambda>p. p) [''b.jar'', ''c.jar'', ''a.jar''])
        = [''a.jar'', ''b.jar'', ''c.jar'']"
    by simp
  from e(4) dl' have len: "length (sort_Strings (Paths_Strings (\<lambda>p. p) [''b.jar'', ''c.jar'', ''a.jar''])) = 3"
    by simp
  have "\<exists>ts w c'.
      run_schedule ?sched (start ?calls newConfig) = Some (ts, w) \<and>
      map snd ts = [Finished, Finished, Finished] \<and>
      handed w = [(0, 1, 2), (0, 1, 2), (0, 1, 2)] \<and>
      outputs (shared w) = ([], [], [''b.jar'', ''c.jar'', ''a.jar'']) \<and>
      hiddenAPIMakeVars (\<lambda>p. p) (shared w) [] =
        Some ([(''SOONG_HIDDENAPI_FLAGS'', ''''),
               (''SOONG_HIDDENAPI_GREYLIST_METADATA'', ''''),
               (''SOONG_HIDDENAPI_DEX_INPUTS'', ''a.jar b.jar c.jar'')], c') \<and>
      sort_Strings (Paths_Strings (\<lambda>p. p) [''b.jar'', ''c.jar'', ''a.jar''])
        = [''a.jar'', ''b.jar'', ''c.jar''] \<and>
      length (sort_Strings (Paths_Strings (\<lambda>p. p) [''b.jar'', ''c.jar'', ''a.jar''])) = 3"
    using r c mv so len by (intro exI [of _ ts] exI [of _ w] exI [of _ c'] conjI)
  with h o show ?thesis by (intro conjI)
qed

section \<open>Properties of the output rewriting\<close>

lemma written_append: "written w (xs @ ys) = written w xs @ written w ys"
  by (induction xs rule: written.induct) simp_all

lemma katiRewriteLoop_append:
  "katiRewriteLoop smart st (xs @ ys) = katiRewriteLoop smart (katiRewriteLoop smart st xs) ys"
  by (simp add: katiRewriteLoop_def)

lemma katiRewriteLoop_Cons:
  "katiRewriteLoop smart st (x # xs) = katiRewriteLoop smart (katiRewriteLine smart st x) xs"
  by (simp add: katiRewriteLoop_def)

lemma katiRewriteLoop_Nil: "katiRewriteLoop smart st [] = st"
  by (simp add: katiRewriteLoop_def)

lemma limitWidth_take:
  "limitWidth tw line = (case tw of Some max_w \<Rightarrow> take max_w line | None \<Rightarrow> line)"
  by (simp add: limitWidth_def split: option.split)

lemma katiRewriteLine_progress:
  assumes "verbose line"
  shows "katiRewriteLine True st (line, tw) =
           \<lparr>haveBlankLine = False,
            events = events st @
              [Write Stdout ([CHR 0x0D] @ limitWidth tw line @ [CHR 0x1B, CHR ''['', CHR ''K''])]\<rparr>"
  using assms by (simp add: katiRewriteLine_def emit_def Fprint_def)

lemma katiRewriteLine_durable:
  assumes "\<not> verbose line"
  shows "katiRewriteLine True st (line, tw) =
           \<lparr>haveBlankLine = True,
            events = events st @
              (if haveBlankLine st then [] else [Write Stdout [CHR 0x0A]]) @
              [Write Stderr (line @ [CHR 0x0A])]\<rparr>"
  using assms by (simp add: katiRewriteLine_def emit_def)

lemma katiRewriteLine_plain:
  "katiRewriteLine False st (line, tw) =
     st\<lparr>events := events st @ [Write Stderr (stripAnsiEscapes line @ [CHR 0x0A])]\<rparr>"
  by (simp add: katiRewriteLine_def emit_def)

text \<open>
  Claim C3.  On an interactive terminal, a progress line anywhere in the stream is cut to
  the width that the terminal reports for this very line (when it reports one; a line that
  is not longer stays whole), and is written to the interactive sink in one piece: a
  carriage return, the cut line, and the sequence that clears to the end of the line.  No
  newline ends the piece, nothing else is written for the line, and the loop goes on in the
  state where \<^verbatim>\<open>haveBlankLine\<close> is false.
\<close>

theorem progress_line_overwrites:
  "verbose line \<longrightarrow>
     katiRewriteLoop True st (pre @ [(line, tw)] @ post) =
       katiRewriteLoop True
         \<lparr>haveBlankLine = False,
          events = events (katiRewriteLoop True st pre) @
            [Write Stdout ([CHR 0x0D] @ limitWidth tw line @ [CHR 0x1B, CHR ''['', CHR ''K''])]\<rparr>
         post
     \<and> limitWidth tw line = (case tw of Some max_w \<Rightarrow> take max_w line | None \<Rightarrow> line)
     \<and> last ([CHR 0x0D] @ limitWidth tw line @ [CHR 0x1B, CHR ''['', CHR ''K'']) \<noteq> CHR 0x0A"
  by (simp add: katiRewriteLoop_append katiRewriteLoop_Cons katiRewriteLine_progress
        limitWidth_take)

theorem progress_line_overwrites_witness:
  "verbose ''including a/b.mk ...'' \<and>
   katiRewriteLoop True \<lparr>haveBlankLine = True, events = []\<rparr>
     [(''hello'', None), (''including a/b.mk ...'', Some 12), (''including c.mk ...'', None)] =
     \<lparr>haveBlankLine = False,
      events = [Write Stderr (''hello'' @ [CHR 0x0A]),
                Write Stdout ([CHR 0x0D] @ ''including a/'' @ [CHR 0x1B] @ ''[K''),
                Write Stdout ([CHR 0x0D] @ ''including c.mk ...'' @ [CHR 0x1B] @ ''[K'')]\<rparr>"
proof -
  have v: "verbose ''including a/b.mk ...''"
    by (simp add: verbose_def MatchString_def katiIncludeRe_def step1_def)
  have v2: "verbose ''including c.mk ...''"
    by (simp add: verbose_def MatchString_def katiIncludeRe_def step1_def)
  have nv: "\<not> verbose ''hello''"
    by (simp add: verbose_def MatchString_def katiIncludeRe_def step1_def)
  from progress_line_overwrites
    [of "''including a/b.mk ...''" "\<lparr>haveBlankLine = True, events = []\<rparr>"
        "[(''hello'', None)]" "Some 12" "[(''including c.mk ...'', None)]"] v
  show ?thesis
    by (simp add: katiRewriteLoop_Cons katiRewriteLoop_Nil katiRewriteLine_durable [OF nv]
          katiRewriteLine_progress [OF v2] limitWidth_def)
qed

text \<open>
  Claim C4.  On an interactive terminal, a durable line that arrives while a progress line
  is held first has one newline written to the interactive sink, which makes the state
  blank, and is then written, ended by a newline, to the secondary sink; a durable line that
  arrives in the blank state is written, ended by a newline, to the secondary sink and
  nothing goes to the interactive sink.  So a progress line, a durable line and another
  progress line give: the first progress line, one newline, the durable line on the
  secondary sink, and a fresh overwrite cycle for the second progress line.
\<close>

theorem durable_line_commits_progress:
  "(\<not> verbose line \<and> \<not> haveBlankLine st \<longrightarrow>
      katiRewriteLine True st (line, tw) =
        \<lparr>haveBlankLine = True,
         events = events st @ [Write Stdout [CHR 0x0A], Write Stderr (line @ [CHR 0x0A])]\<rparr>)
   \<and> (\<not> verbose line \<and> haveBlankLine st \<longrightarrow>
      katiRewriteLine True st (line, tw) =
        \<lparr>haveBlankLine = True, events = events st @ [Write Stderr (line @ [CHR 0x0A])]\<rparr>)
   \<and> (verbose p1 \<and> \<not> verbose line \<and> verbose p2 \<longrightarrow>
      katiRewriteLoop True \<lparr>haveBlankLine = True, events = []\<rparr> [(p1, w1), (line, tw), (p2, w2)] =
        \<lparr>haveBlankLine = False,
         events = [Write Stdout ([CHR 0x0D] @ limitWidth w1 p1 @ [CHR 0x1B, CHR ''['', CHR ''K'']),
                   Write Stdout [CHR 0x0A],
                   Write Stderr (line @ [CHR 0x0A]),
                   Write Stdout ([CHR 0x0D] @ limitWidth w2 p2 @ [CHR 0x1B, CHR ''['', CHR ''K''])]\<rparr>)"
  by (simp add: katiRewriteLoop_Cons katiRewriteLoop_Nil katiRewriteLine_durable
        katiRewriteLine_progress)

theorem durable_line_commits_progress_witness:
  "\<not> verbose ''warning: x'' \<and> verbose ''including a.mk ...'' \<and> verbose ''[3/7] including b.mk ...'' \<and>
   katiRewriteLine True \<lparr>haveBlankLine = False, events = []\<rparr> (''warning: x'', None) =
     \<lparr>haveBlankLine = True,
      events = [Write Stdout [CHR 0x0A], Write Stderr (''warning: x'' @ [CHR 0x0A])]\<rparr> \<and>
   katiRewriteLine True \<lparr>haveBlankLine = True, events = []\<rparr> (''warning: x'', None) =
     \<lparr>haveBlankLine = True, events = [Write Stderr (''warning: x'' @ [CHR 0x0A])]\<rparr> \<and>
   katiRewriteLoop True \<lparr>haveBlankLine = True, events = []\<rparr>
     [(''including a.mk ...'', None), (''warning: x'', None), (''[3/7] including b.mk ...'', None)] =
     \<lparr>haveBlankLine = False,
      events = [Write Stdout ([CHR 0x0D] @ ''including a.mk ...'' @ [CHR 0x1B] @ ''[K''),
                Write Stdout [CHR 0x0A],
                Write Stderr (''warning: x'' @ [CHR 0x0A]),
                Write Stdout ([CHR 0x0D] @ ''[3/7] including b.mk ...'' @ [CHR 0x1B] @ ''[K'')]\<rparr>"
proof -
  have v: "\<not> verbose ''warning: x''" "verbose ''including a.mk ...''"
    "verbose ''[3/7] including b.mk ...''"
    by (simp_all add: verbose_def MatchString_def katiIncludeRe_def step1_def)
  from v
    durable_line_commits_progress
      [of "''warning: x''" "\<lparr>haveBlankLine = False, events = []\<rparr>" None
          "''including a.mk ...''" "''[3/7] including b.mk ...''" None None]
    durable_line_commits_progress
      [of "''warning: x''" "\<lparr>haveBlankLine = True, events = []\<rparr>" None
          "''including a.mk ...''" "''[3/7] including b.mk ...''" None None]
  show ?thesis by (simp add: limitWidth_def)
qed

lemma katiRewriteLine_blank_inv:
  assumes "haveBlankLine st \<longrightarrow>
             written Stdout (events st) = [] \<or> last (written Stdout (events st)) = CHR 0x0A"
  shows "haveBlankLine (katiRewriteLine smart st x) \<longrightarrow>
           written Stdout (events (katiRewriteLine smart st x)) = [] \<or>
           last (written Stdout (events (katiRewriteLine smart st x))) = CHR 0x0A"
proof (cases x)
  case (Pair line tw)
  show ?thesis
  proof (cases smart)
    case False
    with Pair assms show ?thesis
      by (simp add: katiRewriteLine_plain written_append)
  next
    case True
    show ?thesis
    proof (cases "verbose line")
      case v: True
      with Pair True show ?thesis by (simp add: katiRewriteLine_progress)
    next
      case v: False
      with Pair True assms show ?thesis
        by (simp add: katiRewriteLine_durable written_append)
    qed
  qed
qed

lemma katiRewriteLoop_blank_inv:
  assumes "haveBlankLine st \<longrightarrow>
             written Stdout (events st) = [] \<or> last (written Stdout (events st)) = CHR 0x0A"
  shows "haveBlankLine (katiRewriteLoop smart st pipe) \<longrightarrow>
           written Stdout (events (katiRewriteLoop smart st pipe)) = [] \<or>
           last (written Stdout (events (katiRewriteLoop smart st pipe))) = CHR 0x0A"
  using assms
proof (induction pipe arbitrary: st)
  case Nil
  then show ?case by (simp add: katiRewriteLoop_Nil)
next
  case (Cons x pipe)
  from Cons.IH [OF katiRewriteLine_blank_inv [OF Cons.prems]]
  show ?case by (simp add: katiRewriteLoop_Cons)
qed

lemma katiRewriteOutput_flush:
  "katiRewriteOutput smart evs pipe =
     events (katiRewriteLoop smart \<lparr>haveBlankLine = True, events = evs\<rparr> pipe) @
     (if haveBlankLine (katiRewriteLoop smart \<lparr>haveBlankLine = True, events = evs\<rparr> pipe)
      then [] else [Write Stdout [CHR 0x0A]])"
  by (simp add: katiRewriteOutput_def emit_def Let_def)

text \<open>
  Claim C5.  When the stream is exhausted, the loop's events are followed by one newline on
  the interactive sink if a progress line is held, and by nothing otherwise.  So whatever
  the stream and the kind of terminal, the text that the interactive sink has received
  after the function returns is empty or ends in a newline (given that it was so before).
  When the last line of the stream is a progress line on an interactive terminal, the
  events end with the write of that line and the write of one newline.
\<close>

theorem progress_line_committed_at_end:
  "katiRewriteOutput smart evs pipe =
     events (katiRewriteLoop smart \<lparr>haveBlankLine = True, events = evs\<rparr> pipe) @
     (if haveBlankLine (katiRewriteLoop smart \<lparr>haveBlankLine = True, events = evs\<rparr> pipe)
      then [] else [Write Stdout [CHR 0x0A]])
   \<and> (written Stdout evs = [] \<or> last (written Stdout evs) = CHR 0x0A \<longrightarrow>
        written Stdout (katiRewriteOutput smart evs pipe) = [] \<or>
        last (written Stdout (katiRewriteOutput smart evs pipe)) = CHR 0x0A)
   \<and> (verbose line \<longrightarrow>
        katiRewriteOutput True evs (pre @ [(line, tw)]) =
          events (katiRewriteLoop True \<lparr>haveBlankLine = True, events = evs\<rparr> pre) @
          [Write Stdout ([CHR 0x0D] @ limitWidth tw line @ [CHR 0x1B, CHR ''['', CHR ''K'']),
           Write Stdout [CHR 0x0A]])"
proof (intro conjI impI)
  show "katiRewriteOutput smart evs pipe =
     events (katiRewriteLoop smart \<lparr>haveBlankLine = True, events = evs\<rparr> pipe) @
     (if haveBlankLine (katiRewriteLoop smart \<lparr>haveBlankLine = True, events = evs\<rparr> pipe)
      then [] else [Write Stdout [CHR 0x0A]])"
    by (rule katiRewriteOutput_flush)
next
  assume a: "written Stdout evs = [] \<or> last (written Stdout evs) = CHR 0x0A"
  let ?st = "katiRewriteLoop smart \<lparr>haveBlankLine = True, events = evs\<rparr> pipe"
  from a have "haveBlankLine \<lparr>haveBlankLine = True, events = evs\<rparr> \<longrightarrow>
      written Stdout (events \<lparr>haveBlankLine = True, events = evs\<rparr>) = [] \<or>
      last (written Stdout (events \<lparr>haveBlankLine = True, events = evs\<rparr>)) = CHR 0x0A"
    by simp
  from katiRewriteLoop_blank_inv [OF this, of smart pipe]
  show "written Stdout (katiRewriteOutput smart evs pipe) = [] \<or>
        last (written Stdout (katiRewriteOutput smart evs pipe)) = CHR 0x0A"
    by (cases "haveBlankLine ?st") (simp_all add: katiRewriteOutput_flush written_append)
next
  assume v: "verbose line"
  show "katiRewriteOutput True evs (pre @ [(line, tw)]) =
          events (katiRewriteLoop True \<lparr>haveBlankLine = True, events = evs\<rparr> pre) @
          [Write Stdout ([CHR 0x0D] @ limitWidth tw line @ [CHR 0x1B, CHR ''['', CHR ''K'']),
           Write Stdout [CHR 0x0A]]"
    by (simp add: katiRewriteOutput_flush katiRewriteLoop_append katiRewriteLoop_Cons
          katiRewriteLoop_Nil katiRewriteLine_progress [OF v])
qed

theorem progress_line_committed_at_end_witness:
  "verbose ''including a.mk ...'' \<and>
   written Stdout [] = [] \<and>
   katiRewriteOutput True [] [(''note'', None), (''including a.mk ...'', Some 80)] =
     [Write Stderr (''note'' @ [CHR 0x0A]),
      Write Stdout ([CHR 0x0D] @ ''including a.mk ...'' @ [CHR 0x1B] @ ''[K''),
      Write Stdout [CHR 0x0A]] \<and>
   last (written Stdout
          (katiRewriteOutput True [] [(''note'', None), (''including a.mk ...'', Some 80)]))
     = CHR 0x0A"
proof -
  have v: "verbose ''including a.mk ...''" and nv: "\<not> verbose ''note''"
    by (simp_all add: verbose_def MatchString_def katiIncludeRe_def step1_def)
  from progress_line_committed_at_end
    [of True "[]" "[(''note'', None), (''including a.mk ...'', Some 80)]"
        "''including a.mk ...''" "[(''note'', None)]" "Some 80"] v
  have "katiRewriteOutput True [] ([(''note'', None)] @ [(''including a.mk ...'', Some 80)]) =
          events (katiRewriteLoop True \<lparr>haveBlankLine = True, events = []\<rparr> [(''note'', None)]) @
          [Write Stdout ([CHR 0x0D] @ limitWidth (Some 80) ''including a.mk ...'' @
                         [CHR 0x1B, CHR ''['', CHR ''K'']),
           Write Stdout [CHR 0x0A]]"
    by blast
  then have e: "katiRewriteOutput True [] [(''note'', None), (''including a.mk ...'', Some 80)] =
     [Write Stderr (''note'' @ [CHR 0x0A]),
      Write Stdout ([CHR 0x0D] @ ''including a.mk ...'' @ [CHR 0x1B] @ ''[K''),
      Write Stdout [CHR 0x0A]]"
    by (simp add: katiRewriteLoop_Cons katiRewriteLoop_Nil katiRewriteLine_durable [OF nv]
          limitWidth_def)
  from v e show ?thesis by simp
qed

lemma katiRewriteLoop_plain:
  "katiRewriteLoop False st pipe =
     st\<lparr>events := events st @
          map (\<lambda>(line, tw). Write Stderr (stripAnsiEscapes line @ [CHR 0x0A])) pipe\<rparr>"
proof (induction pipe arbitrary: st)
  case Nil
  then show ?case by (simp add: katiRewriteLoop_Nil)
next
  case (Cons x pipe)
  obtain line tw where x: "x = (line, tw)" by (cases x)
  show ?case
    by (simp add: katiRewriteLoop_Cons Cons.IH x katiRewriteLine_plain)
qed

lemma stripAnsiEscapes_plain: "plain line \<Longrightarrow> stripAnsiEscapes line = line"
  by (induction line rule: stripAnsiEscapes.induct) (auto split: if_splits)

lemma skipSequence_to_letter:
  "list_all (\<lambda>c. \<not> isLetter c) params \<Longrightarrow> isLetter f \<Longrightarrow> skipSequence (params @ f # rest) = rest"
  by (induction params) auto

lemma stripAnsiEscapes_prefix:
  "plain before \<Longrightarrow>
   stripAnsiEscapes (before @ CHR 0x1B # CHR ''['' # rest) = before @ stripAnsiEscapes (skipSequence rest)"
proof (induction before rule: plain.induct)
  case 1
  then show ?case by simp
next
  case (2 c)
  then show ?case by simp
next
  case (3 c d cs)
  then show ?case by (auto split: if_splits)
qed

lemma stripAnsiEscapes_withSequences:
  assumes "sequences_ok pieces" "plain behind"
  shows "stripAnsiEscapes (withSequences pieces behind) = concat (map fst pieces) @ behind"
  using assms(1)
proof (induction pieces)
  case Nil
  with assms(2) show ?case by (simp add: stripAnsiEscapes_plain)
next
  case (Cons piece pieces)
  obtain seg params final where piece: "piece = (seg, params, final)" by (cases piece)
  from Cons.prems piece have ok: "plain seg" "list_all (\<lambda>c. \<not> isLetter c) params" "isLetter final"
    and rest: "sequences_ok pieces"
    by (simp_all add: sequences_ok_def)
  have "stripAnsiEscapes (withSequences (piece # pieces) behind)
      = stripAnsiEscapes (seg @ CHR 0x1B # CHR ''['' # (params @ final # withSequences pieces behind))"
    by (simp add: piece)
  also have "\<dots> = seg @ stripAnsiEscapes (skipSequence (params @ final # withSequences pieces behind))"
    using ok(1) by (rule stripAnsiEscapes_prefix)
  also have "\<dots> = seg @ stripAnsiEscapes (withSequences pieces behind)"
    using ok(2,3) by (simp add: skipSequence_to_letter)
  also have "\<dots> = seg @ concat (map fst pieces) @ behind"
    using Cons.IH [OF rest] by simp
  finally show ?case by (simp add: piece)
qed

text \<open>
  Claim C6.  When the sink is not an interactive terminal, the run writes nothing but one
  piece for each line, in order, to the secondary sink: the line as \<^verbatim>\<open>stripAnsiEscapes\<close>
  returns it, ended by a newline, whether or not the line is a progress line.  A line in
  which no control sequence begins comes back unchanged.  A line with any number of
  embedded control sequences (escape, bracket, parameters, a final letter) comes back
  without any of them and with all the text before, between and behind them as it was;
  so that is what the secondary sink receives for every such line of the stream.
\<close>

theorem plain_sink_strips_every_line:
  "katiRewriteOutput False evs pipe =
     evs @ map (\<lambda>(line, tw). Write Stderr (stripAnsiEscapes line @ [CHR 0x0A])) pipe
   \<and> (plain line \<longrightarrow> stripAnsiEscapes line = line)
   \<and> (sequences_ok pieces \<and> plain behind \<longrightarrow>
        stripAnsiEscapes (withSequences pieces behind) = concat (map fst pieces) @ behind)
   \<and> (list_all (\<lambda>(pieces, behind, tw). sequences_ok pieces \<and> plain behind) lines \<longrightarrow>
        katiRewriteOutput False evs
          (map (\<lambda>(pieces, behind, tw). (withSequences pieces behind, tw)) lines) =
        evs @ map (\<lambda>(pieces, behind, tw).
                     Write Stderr (concat (map fst pieces) @ behind @ [CHR 0x0A])) lines)"
proof (intro conjI impI)
  have flat: "katiRewriteOutput False evs p =
     evs @ map (\<lambda>(line, tw). Write Stderr (stripAnsiEscapes line @ [CHR 0x0A])) p" for p
    by (simp add: katiRewriteOutput_flush katiRewriteLoop_plain)
  show "katiRewriteOutput False evs pipe =
     evs @ map (\<lambda>(line, tw). Write Stderr (stripAnsiEscapes line @ [CHR 0x0A])) pipe"
    by (rule flat)
  show "stripAnsiEscapes line = line" if "plain line"
    using that by (rule stripAnsiEscapes_plain)
  show "stripAnsiEscapes (withSequences pieces behind) = concat (map fst pieces) @ behind"
    if "sequences_ok pieces \<and> plain behind"
    using that by (simp add: stripAnsiEscapes_withSequences)
  show "katiRewriteOutput False evs
          (map (\<lambda>(pieces, behind, tw). (withSequences pieces behind, tw)) lines) =
        evs @ map (\<lambda>(pieces, behind, tw).
                     Write Stderr (concat (map fst pieces) @ behind @ [CHR 0x0A])) lines"
    if "list_all (\<lambda>(pieces, behind, tw). sequences_ok pieces \<and> plain behind) lines"
    using that
    by (simp add: flat list_all_iff stripAnsiEscapes_withSequences split_beta comp_def)
qed

theorem plain_sink_strips_every_line_witness:
  "stripAnsiEscapes ''plain text'' = ''plain text'' \<and>
   stripAnsiEscapes
     ([CHR 0x1B] @ ''[1m'' @ ''a.mk:3: '' @ [CHR 0x1B] @ ''[35m'' @ ''warning: '' @
      [CHR 0x1B] @ ''[0m'' @ ''unused'')
     = ''a.mk:3: warning: unused'' \<and>
   katiRewriteOutput False []
     [(''including a.mk ...'', None),
      ([CHR 0x1B] @ ''[1m'' @ ''a.mk:3: '' @ [CHR 0x1B] @ ''[35m'' @ ''warning: '' @
       [CHR 0x1B] @ ''[0m'' @ ''unused'', Some 3)] =
     [Write Stderr (''including a.mk ...'' @ [CHR 0x0A]),
      Write Stderr (''a.mk:3: warning: unused'' @ [CHR 0x0A])]"
proof -
  let ?pieces = "[([], ''1'', CHR ''m''), (''a.mk:3: '', ''35'', CHR ''m''),
                  (''warning: '', ''0'', CHR ''m'')]"
  let ?lines = "[([], ''including a.mk ...'', None), (?pieces, ''unused'', Some (3::nat))]"
  have h: "plain ''plain text''" "sequences_ok ?pieces \<and> plain ''unused''"
    "list_all (\<lambda>(pieces, behind, tw). sequences_ok pieces \<and> plain behind) ?lines"
    by (simp_all add: sequences_ok_def isLetter_def)
  note t = plain_sink_strips_every_line [of "[]" "[]" "''plain text''" ?pieces "''unused''" ?lines]
  from t h(1) have 1: "stripAnsiEscapes ''plain text'' = ''plain text''" by blast
  from t h(2) have "stripAnsiEscapes (withSequences ?pieces ''unused'')
      = concat (map fst ?pieces) @ ''unused''" by blast
  then have 2: "stripAnsiEscapes
     ([CHR 0x1B] @ ''[1m'' @ ''a.mk:3: '' @ [CHR 0x1B] @ ''[35m'' @ ''warning: '' @
      [CHR 0x1B] @ ''[0m'' @ ''unused'')
     = ''a.mk:3: warning: unused''"
    by (simp del: stripAnsiEscapes.simps)
  from t h(3) have "katiRewriteOutput False []
          (map (\<lambda>(pieces, behind, tw). (withSequences pieces behind, tw)) ?lines) =
        [] @ map (\<lambda>(pieces, behind, tw).
                     Write Stderr (concat (map fst pieces) @ behind @ [CHR 0x0A])) ?lines"
    by blast
  then have 3: "katiRewriteOutput False []
     [(''including a.mk ...'', None),
      ([CHR 0x1B] @ ''[1m'' @ ''a.mk:3: '' @ [CHR 0x1B] @ ''[35m'' @ ''warning: '' @
       [CHR 0x1B] @ ''[0m'' @ ''unused'', Some 3)] =
     [Write Stderr (''including a.mk ...'' @ [CHR 0x0A]),
      Write Stderr (''a.mk:3: warning: unused'' @ [CHR 0x0A])]"
    by (simp del: stripAnsiEscapes.simps)
  from 1 2 3 show ?thesis by (intro conjI)
qed

section \<open>Properties of \<^verbatim>\<open>runKati\<close> and \<^verbatim>\<open>genKatiSuffix\<close>\<close>

lemma katiRewriteOutput_prefix:
  "\<exists>rest. katiRewriteOutput smart evs pipe = evs @ rest \<and> (\<forall>e \<in> set rest. is_Write e)"
proof -
  have line: "\<exists>rest. events (katiRewriteLine smart st x) = events st @ rest \<and>
                (\<forall>e \<in> set rest. is_Write e)" for st x
    by (cases x)
       (auto simp add: katiRewriteLine_def emit_def Fprint_def is_Write_def Let_def)
  have loop: "\<exists>rest. events (katiRewriteLoop smart st pipe) = events st @ rest \<and>
                (\<forall>e \<in> set rest. is_Write e)" for st
  proof (induction pipe arbitrary: st)
    case Nil
    then show ?case by (simp add: katiRewriteLoop_Nil)
  next
    case (Cons x pipe)
    from line [of st x] obtain r1 where
      r1: "events (katiRewriteLine smart st x) = events st @ r1" "\<forall>e \<in> set r1. is_Write e"
      by blast
    from Cons.IH [of "katiRewriteLine smart st x"] obtain r2 where
      r2: "events (katiRewriteLoop smart (katiRewriteLine smart st x) pipe)
             = events (katiRewriteLine smart st x) @ r2" "\<forall>e \<in> set r2. is_Write e"
      by blast
    from r1 r2 have "events (katiRewriteLoop smart st (x # pipe)) = events st @ (r1 @ r2)"
      "\<forall>e \<in> set (r1 @ r2). is_Write e"
      by (auto simp add: katiRewriteLoop_Cons)
    then show ?case by blast
  qed
  from loop [of "\<lparr>haveBlankLine = True, events = evs\<rparr>"] obtain r where
    r: "events (katiRewriteLoop smart \<lparr>haveBlankLine = True, events = evs\<rparr> pipe) = evs @ r"
       "\<forall>e \<in> set r. is_Write e" by auto
  show ?thesis
  proof (cases "haveBlankLine (katiRewriteLoop smart \<lparr>haveBlankLine = True, events = evs\<rparr> pipe)")
    case True
    with r show ?thesis by (simp add: katiRewriteOutput_flush)
  next
    case False
    with r have "katiRewriteOutput smart evs pipe = evs @ (r @ [Write Stdout [CHR 0x0A]])"
      "\<forall>e \<in> set (r @ [Write Stdout [CHR 0x0A]]). is_Write e"
      by (simp_all add: katiRewriteOutput_flush is_Write_def)
    then show ?thesis by blast
  qed
qed

lemma genKatiSuffix_events:
  "\<forall>e \<in> set (snd (genKatiSuffix md5_Sum ninjaFile writeErr config)).
     e \<noteq> StdoutPipe \<and> e \<noteq> Start \<and> e \<noteq> Wait \<and> \<not> is_Write e"
  by (simp add: genKatiSuffix_def Let_def is_Write_def split: option.split)

lemma count_not_member: "x \<notin> set xs \<Longrightarrow> length (filter (\<lambda>e. e = x) xs) = 0"
  by (induction xs) auto

lemma count_writes: "\<forall>e \<in> set xs. is_Write e \<Longrightarrow> \<not> is_Write x \<Longrightarrow> length (filter (\<lambda>e. e = x) xs) = 0"
  by (induction xs) auto

text \<open>
  Claim C7.  A run of the external tool has exactly two kinds of fatal outcome, and returns
  exactly when neither applies, that is, when the tool started and exited with status zero:
  \<^item> the tool could not be started, because its output pipe could not be made or because
    starting the process failed: the failure is reported with the underlying system error
    at once, before anything is written to a sink and without waiting for a process (and
    without starting one when it is the pipe that failed);
  \<^item> the tool started and did not exit with status zero: when the wait gives the state of
    the ended process, \<open>ckati failed with:\<close> and the textual description of that state
    are reported; when the wait itself fails, its error is reported as the generic
    \<open>Failed to run ckati:\<close>.

  Nothing is tried twice: the pipe is asked for once, the process is started at most once
  and waited for at most once.
\<close>

theorem runKati_fatal_outcomes:
  "((fst (runKati md5_Sum ninjaFile os config) = Returned) = (fatal_kind_spec os = None))
   \<and> (pipeErr os = Some perr \<longrightarrow>
      fatal_kind_spec os = Some LaunchFailure \<and>
      fst (runKati md5_Sum ninjaFile os config) = Fatalln [''Error getting output pipe for ckati:'', perr] \<and>
      Start \<notin> set (snd (snd (runKati md5_Sum ninjaFile os config))) \<and>
      Wait \<notin> set (snd (snd (runKati md5_Sum ninjaFile os config))) \<and>
      (\<forall>e \<in> set (snd (snd (runKati md5_Sum ninjaFile os config))). \<not> is_Write e))
   \<and> (pipeErr os = None \<and> startErr os = Some serr \<longrightarrow>
      fatal_kind_spec os = Some LaunchFailure \<and>
      fst (runKati md5_Sum ninjaFile os config) = Fatalln [''Failed to run ckati:'', serr] \<and>
      Wait \<notin> set (snd (snd (runKati md5_Sum ninjaFile os config))) \<and>
      (\<forall>e \<in> set (snd (snd (runKati md5_Sum ninjaFile os config))). \<not> is_Write e))
   \<and> (pipeErr os = None \<and> startErr os = None \<and> waited os = Ended state \<and> exitStatus state \<noteq> Some 0 \<longrightarrow>
      fatal_kind_spec os = Some AbnormalExit \<and>
      fst (runKati md5_Sum ninjaFile os config) = Fatalln [''ckati failed with:'', String state])
   \<and> (pipeErr os = None \<and> startErr os = None \<and> waited os = WaitFailed werr \<longrightarrow>
      fatal_kind_spec os = Some AbnormalExit \<and>
      fst (runKati md5_Sum ninjaFile os config) = Fatalln [''Failed to run ckati:'', werr])
   \<and> (pipeErr os = None \<and> startErr os = None \<and> waited os = Ended state \<and> exitStatus state = Some 0 \<longrightarrow>
      fatal_kind_spec os = None \<and>
      fst (runKati md5_Sum ninjaFile os config) = Returned)
   \<and> length (filter (\<lambda>e. e = StdoutPipe) (snd (snd (runKati md5_Sum ninjaFile os config)))) = 1
   \<and> length (filter (\<lambda>e. e = Start) (snd (snd (runKati md5_Sum ninjaFile os config)))) \<le> 1
   \<and> length (filter (\<lambda>e. e = Wait) (snd (snd (runKati md5_Sum ninjaFile os config)))) \<le> 1"
proof -
  obtain config' gevs where g: "genKatiSuffix md5_Sum ninjaFile (writeFileErr os) config = (config', gevs)"
    by (cases "genKatiSuffix md5_Sum ninjaFile (writeFileErr os) config")
  from genKatiSuffix_events [of md5_Sum ninjaFile "writeFileErr os" config] g
  have ge: "\<forall>e \<in> set gevs. e \<noteq> StdoutPipe \<and> e \<noteq> Start \<and> e \<noteq> Wait \<and> \<not> is_Write e"
    by simp
  then have gc: "length (filter (\<lambda>e. e = StdoutPipe) gevs) = 0"
    "length (filter (\<lambda>e. e = Start) gevs) = 0" "length (filter (\<lambda>e. e = Wait) gevs) = 0"
    by (auto intro!: count_not_member)
  obtain rest where
    rest: "katiRewriteOutput (isTerminal os)
             ([BeginTrace ''kati''] @ gevs @ [StdoutPipe] @ [VerboselnCommand, Start])
             (pipeLines os) = ([BeginTrace ''kati''] @ gevs @ [StdoutPipe] @ [VerboselnCommand, Start]) @ rest"
    and rw: "\<forall>e \<in> set rest. is_Write e"
    using katiRewriteOutput_prefix by blast
  have rc: "length (filter (\<lambda>e. e = StdoutPipe) rest) = 0"
    "length (filter (\<lambda>e. e = Start) rest) = 0" "length (filter (\<lambda>e. e = Wait) rest) = 0"
    by (simp_all add: count_writes [OF rw] is_Write_def)
  show ?thesis
  proof (cases "pipeErr os")
    case (Some e)
    with g ge gc show ?thesis
      by (auto simp add: runKati_def is_Write_def fatal_kind_spec_def)
  next
    case None
    note p = this
    show ?thesis
    proof (cases "startErr os")
      case (Some e)
      with p g ge gc show ?thesis
        by (auto simp add: runKati_def is_Write_def fatal_kind_spec_def)
    next
      case None
      note s = this
      show ?thesis
      proof (cases "waited os")
        case (WaitFailed e)
        with p s g gc rc rest show ?thesis
          by (simp add: runKati_def fatal_kind_spec_def cmd_Wait_def)
      next
        case (Ended st)
        with p s g gc rc rest show ?thesis
          by (cases "exitStatus st = Some 0")
             (simp_all add: runKati_def fatal_kind_spec_def cmd_Wait_def Success_def)
      qed
    qed
  qed
qed

theorem runKati_fatal_outcomes_witness:
  "runKati sample_Sum sample_KatiNinjaFile
     \<lparr>isTerminal = True, writeFileErr = None, pipeErr = None, startErr = None,
      pipeLines = [(''including a.mk ...'', Some 80), (''ninja: error'', None)],
      waited = Ended \<lparr>exitStatus = Some 2, String = ''exit status 2''\<rparr>\<rparr>
     \<lparr>TargetProduct = ''aosp_arm'', KatiArgs = [], Environment = Map.empty, KatiSuffix = ''''\<rparr>
   = (Fatalln [''ckati failed with:'', ''exit status 2''],
      \<lparr>TargetProduct = ''aosp_arm'', KatiArgs = [], Environment = Map.empty, KatiSuffix = ''-aosp_arm''\<rparr>,
      [BeginTrace ''kati'', SetKatiSuffix ''-aosp_arm'', StdoutPipe, VerboselnCommand, Start,
       Write Stdout ([CHR 0x0D] @ ''including a.mk ...'' @ [CHR 0x1B] @ ''[K''),
       Write Stdout [CHR 0x0A],
       Write Stderr (''ninja: error'' @ [CHR 0x0A]),
       Wait])
   \<and> fst (runKati sample_Sum sample_KatiNinjaFile
     \<lparr>isTerminal = True, writeFileErr = None, pipeErr = None, startErr = None,
      pipeLines = [(''including a.mk ...'', Some 80)],
      waited = Ended \<lparr>exitStatus = None, String = ''signal: killed''\<rparr>\<rparr>
     \<lparr>TargetProduct = ''aosp_arm'', KatiArgs = [], Environment = Map.empty, KatiSuffix = ''''\<rparr>)
   = Fatalln [''ckati failed with:'', ''signal: killed'']
   \<and> fst (runKati sample_Sum sample_KatiNinjaFile
     \<lparr>isTerminal = True, writeFileErr = None, pipeErr = None, startErr = None,
      pipeLines = [(''including a.mk ...'', Some 80)],
      waited = Ended \<lparr>exitStatus = Some 0, String = ''exit status 0''\<rparr>\<rparr>
     \<lparr>TargetProduct = ''aosp_arm'', KatiArgs = [], Environment = Map.empty, KatiSuffix = ''''\<rparr>)
   = Returned
   \<and> fst (runKati sample_Sum sample_KatiNinjaFile
     \<lparr>isTerminal = True, writeFileErr = None, pipeErr = None, startErr = None,
      pipeLines = [(''including a.mk ...'', Some 80)],
      waited = WaitFailed ''wait: no child processes''\<rparr>
     \<lparr>TargetProduct = ''aosp_arm'', KatiArgs = [], Environment = Map.empty, KatiSuffix = ''''\<rparr>)
   = Fatalln [''Failed to run ckati:'', ''wait: no child processes'']
   \<and> runKati sample_Sum sample_KatiNinjaFile
     \<lparr>isTerminal = True, writeFileErr = None, pipeErr = None,
      startErr = Some ''fork/exec ckati: permission denied'',
      pipeLines = [(''including a.mk ...'', Some 80)],
      waited = Ended \<lparr>exitStatus = Some 0, String = ''exit status 0''\<rparr>\<rparr>
     \<lparr>TargetProduct = ''aosp_arm'', KatiArgs = [], Environment = Map.empty, KatiSuffix = ''''\<rparr>
   = (Fatalln [''Failed to run ckati:'', ''fork/exec ckati: permission denied''],
      \<lparr>TargetProduct = ''aosp_arm'', KatiArgs = [], Environment = Map.empty, KatiSuffix = ''-aosp_arm''\<rparr>,
      [BeginTrace ''kati'', SetKatiSuffix ''-aosp_arm'', StdoutPipe, VerboselnCommand, Start])
   \<and> runKati sample_Sum sample_KatiNinjaFile
     \<lparr>isTerminal = True, writeFileErr = None, pipeErr = Some ''pipe: too many open files'',
      startErr = None,
      pipeLines = [(''including a.mk ...'', Some 80)],
      waited = Ended \<lparr>exitStatus = Some 0, String = ''exit status 0''\<rparr>\<rparr>
     \<lparr>TargetProduct = ''aosp_arm'', KatiArgs = [], Environment = Map.empty, KatiSuffix = ''''\<rparr>
   = (Fatalln [''Error getting output pipe for ckati:'', ''pipe: too many open files''],
      \<lparr>TargetProduct = ''aosp_arm'', KatiArgs = [], Environment = Map.empty, KatiSuffix = ''-aosp_arm''\<rparr>,
      [BeginTrace ''kati'', SetKatiSuffix ''-aosp_arm'', StdoutPipe])"
proof -
  let ?cfg = "\<lparr>TargetProduct = ''aosp_arm'', KatiArgs = [], Environment = Map.empty, KatiSuffix = ''''\<rparr>"
  let ?lines = "[(''including a.mk ...'', Some (80::nat))]"
  let ?zero = "\<lparr>exitStatus = Some 0, String = ''exit status 0''\<rparr>"
  let ?two = "\<lparr>exitStatus = Some 2, String = ''exit status 2''\<rparr>"
  let ?killed = "\<lparr>exitStatus = None, String = ''signal: killed''\<rparr>"
  let ?os1 = "\<lparr>isTerminal = True, writeFileErr = None, pipeErr = None, startErr = None,
      pipeLines = [(''including a.mk ...'', Some 80), (''ninja: error'', None)],
      waited = Ended ?two\<rparr>"
  let ?os2 = "\<lparr>isTerminal = True, writeFileErr = None, pipeErr = None, startErr = None,
      pipeLines = ?lines, waited = Ended ?killed\<rparr>"
  let ?os3 = "\<lparr>isTerminal = True, writeFileErr = None, pipeErr = None, startErr = None,
      pipeLines = ?lines, waited = Ended ?zero\<rparr>"
  let ?os4 = "\<lparr>isTerminal = True, writeFileErr = None, pipeErr = None, startErr = None,
      pipeLines = ?lines, waited = WaitFailed ''wait: no child processes''\<rparr>"
  let ?os5 = "\<lparr>isTerminal = True, writeFileErr = None, pipeErr = None,
      startErr = Some ''fork/exec ckati: permission denied'',
      pipeLines = ?lines, waited = Ended ?zero\<rparr>"
  let ?os6 = "\<lparr>isTerminal = True, writeFileErr = None, pipeErr = Some ''pipe: too many open files'',
      startErr = None, pipeLines = ?lines, waited = Ended ?zero\<rparr>"
  have v: "verbose ''including a.mk ...''" and nv: "\<not> verbose ''ninja: error''"
    by (simp_all add: verbose_def MatchString_def katiIncludeRe_def step1_def)
  have h1: "pipeErr ?os1 = None \<and> startErr ?os1 = None \<and> waited ?os1 = Ended ?two \<and>
            exitStatus ?two \<noteq> Some 0" by simp
  from runKati_fatal_outcomes
    [of sample_Sum sample_KatiNinjaFile ?os1 ?cfg "''x''" "''y''" ?two "''z''"] h1
  have o1: "fst (runKati sample_Sum sample_KatiNinjaFile ?os1 ?cfg)
        = Fatalln [''ckati failed with:'', String ?two]"
    by blast
  have r1: "snd (runKati sample_Sum sample_KatiNinjaFile ?os1 ?cfg) =
     (\<lparr>TargetProduct = ''aosp_arm'', KatiArgs = [], Environment = Map.empty, KatiSuffix = ''-aosp_arm''\<rparr>,
      [BeginTrace ''kati'', SetKatiSuffix ''-aosp_arm'', StdoutPipe, VerboselnCommand, Start,
       Write Stdout ([CHR 0x0D] @ ''including a.mk ...'' @ [CHR 0x1B] @ ''[K''),
       Write Stdout [CHR 0x0A],
       Write Stderr (''ninja: error'' @ [CHR 0x0A]),
       Wait])"
    by (simp add: runKati_def genKatiSuffix_def fullKatiSuffix_def Let_def katiRewriteOutput_flush
          katiRewriteLoop_Cons katiRewriteLoop_Nil katiRewriteLine_progress [OF v]
          katiRewriteLine_durable [OF nv] limitWidth_def cmd_Wait_def Success_def)
  from o1 r1 have c1: "runKati sample_Sum sample_KatiNinjaFile ?os1 ?cfg
   = (Fatalln [''ckati failed with:'', ''exit status 2''],
      \<lparr>TargetProduct = ''aosp_arm'', KatiArgs = [], Environment = Map.empty, KatiSuffix = ''-aosp_arm''\<rparr>,
      [BeginTrace ''kati'', SetKatiSuffix ''-aosp_arm'', StdoutPipe, VerboselnCommand, Start,
       Write Stdout ([CHR 0x0D] @ ''including a.mk ...'' @ [CHR 0x1B] @ ''[K''),
       Write Stdout [CHR 0x0A],
       Write Stderr (''ninja: error'' @ [CHR 0x0A]),
       Wait])"
    by (simp add: prod_eq_iff)
  have h2: "pipeErr ?os2 = None \<and> startErr ?os2 = None \<and> waited ?os2 = Ended ?killed \<and>
            exitStatus ?killed \<noteq> Some 0" by simp
  from runKati_fatal_outcomes
    [of sample_Sum sample_KatiNinjaFile ?os2 ?cfg "''x''" "''y''" ?killed "''z''"] h2
  have "fst (runKati sample_Sum sample_KatiNinjaFile ?os2 ?cfg)
        = Fatalln [''ckati failed with:'', String ?killed]"
    by blast
  then have c2: "fst (runKati sample_Sum sample_KatiNinjaFile ?os2 ?cfg)
        = Fatalln [''ckati failed with:'', ''signal: killed'']"
    by simp
  have h3: "pipeErr ?os3 = None \<and> startErr ?os3 = None \<and> waited ?os3 = Ended ?zero \<and>
            exitStatus ?zero = Some 0" by simp
  from runKati_fatal_outcomes
    [of sample_Sum sample_KatiNinjaFile ?os3 ?cfg "''x''" "''y''" ?zero "''z''"] h3
  have c3: "fst (runKati sample_Sum sample_KatiNinjaFile ?os3 ?cfg) = Returned"
    by blast
  have h4: "pipeErr ?os4 = None \<and> startErr ?os4 = None \<and>
            waited ?os4 = WaitFailed ''wait: no child processes''" by simp
  from runKati_fatal_outcomes
    [of sample_Sum sample_KatiNinjaFile ?os4 ?cfg "''x''" "''y''" ?zero "''wait: no child processes''"] h4
  have c4: "fst (runKati sample_Sum sample_KatiNinjaFile ?os4 ?cfg)
        = Fatalln [''Failed to run ckati:'', ''wait: no child processes'']"
    by blast
  have h5: "pipeErr ?os5 = None \<and> startErr ?os5 = Some ''fork/exec ckati: permission denied''"
    by simp
  from runKati_fatal_outcomes
    [of sample_Sum sample_KatiNinjaFile ?os5 ?cfg "''x''" "''fork/exec ckati: permission denied''"
        ?zero "''z''"] h5
  have o5: "fst (runKati sample_Sum sample_KatiNinjaFile ?os5 ?cfg)
        = Fatalln [''Failed to run ckati:'', ''fork/exec ckati: permission denied'']"
    by blast
  have r5: "snd (runKati sample_Sum sample_KatiNinjaFile ?os5 ?cfg) =
     (\<lparr>TargetProduct = ''aosp_arm'', KatiArgs = [], Environment = Map.empty, KatiSuffix = ''-aosp_arm''\<rparr>,
      [BeginTrace ''kati'', SetKatiSuffix ''-aosp_arm'', StdoutPipe, VerboselnCommand, Start])"
    by (simp add: runKati_def genKatiSuffix_def fullKatiSuffix_def Let_def)
  from o5 r5 have c5: "runKati sample_Sum sample_KatiNinjaFile ?os5 ?cfg
   = (Fatalln [''Failed to run ckati:'', ''fork/exec ckati: permission denied''],
      \<lparr>TargetProduct = ''aosp_arm'', KatiArgs = [], Environment = Map.empty, KatiSuffix = ''-aosp_arm''\<rparr>,
      [BeginTrace ''kati'', SetKatiSuffix ''-aosp_arm'', StdoutPipe, VerboselnCommand, Start])"
    by (simp add: prod_eq_iff)
  have h6: "pipeErr ?os6 = Some ''pipe: too many open files''" by simp
  from runKati_fatal_outcomes
    [of sample_Sum sample_KatiNinjaFile ?os6 ?cfg "''pipe: too many open files''" "''y''"
        ?zero "''z''"] h6
  have o6: "fst (runKati sample_Sum sample_KatiNinjaFile ?os6 ?cfg)
        = Fatalln [''Error getting output pipe for ckati:'', ''pipe: too many open files'']"
    by blast
  have r6: "snd (runKati sample_Sum sample_KatiNinjaFile ?os6 ?cfg) =
     (\<lparr>TargetProduct = ''aosp_arm'', KatiArgs = [], Environment = Map.empty, KatiSuffix = ''-aosp_arm''\<rparr>,
      [BeginTrace ''kati'', SetKatiSuffix ''-aosp_arm'', StdoutPipe])"
    by (simp add: runKati_def genKatiSuffix_def fullKatiSuffix_def Let_def)
  from o6 r6 have c6: "runKati sample_Sum sample_KatiNinjaFile ?os6 ?cfg
   = (Fatalln [''Error getting output pipe for ckati:'', ''pipe: too many open files''],
      \<lparr>TargetProduct = ''aosp_arm'', KatiArgs = [], Environment = Map.empty, KatiSuffix = ''-aosp_arm''\<rparr>,
      [BeginTrace ''kati'', SetKatiSuffix ''-aosp_arm'', StdoutPipe])"
    by (simp add: prod_eq_iff)
  from c1 c2 c3 c4 c5 c6 show ?thesis by (intro conjI)
qed

lemma hexdigit_in: "hexdigit n \<in> set ''0123456789abcdef''"
proof -
  have "n mod 16 < length ''0123456789abcdef''" by simp
  then show ?thesis unfolding hexdigit_def by (rule nth_mem)
qed

lemma Sprintf_x_shape:
  "length (Sprintf_x digest) = 32" "\<forall>c \<in> set (Sprintf_x digest). c \<in> set ''0123456789abcdef''"
  using hexdigit_in by (auto simp add: Sprintf_x_def)

text \<open>
  Claim C10.  When the suffix computed from the configuration is longer than 64 bytes,
  \<^verbatim>\<open>genKatiSuffix\<close> first sets the configuration's suffix to a hyphen followed by the 32 hex
  digits of the digest of the whole suffix (33 characters in all), then logs two lines, and
  only then writes the original suffix to the side file, whose name is computed from the
  configuration that already carries the short suffix.  When the write fails the error is
  printed and that is all: the configuration keeps the short suffix, and a run of
  \<^verbatim>\<open>runKati\<close> ends as it would have ended had the write succeeded.
\<close>

theorem long_suffix_replaced_by_hash:
  "64 < length (fullKatiSuffix config) \<longrightarrow>
     genKatiSuffix md5_Sum ninjaFile writeErr config =
       (config\<lparr>KatiSuffix := ''-'' @ Sprintf_x (md5_Sum (fullKatiSuffix config))\<rparr>,
        [SetKatiSuffix (''-'' @ Sprintf_x (md5_Sum (fullKatiSuffix config))),
         Verbosef ''Kati ninja suffix too long: %q'' (fullKatiSuffix config),
         Verbosef ''Replacing with: %q'' (''-'' @ Sprintf_x (md5_Sum (fullKatiSuffix config))),
         WriteFile
           (TrimSuffix
              (ninjaFile (config\<lparr>KatiSuffix := ''-'' @ Sprintf_x (md5_Sum (fullKatiSuffix config))\<rparr>))
              ''ninja'' @ ''suf'')
           (fullKatiSuffix config) 0x1FF] @
        (case writeErr of
           None \<Rightarrow> []
         | Some err \<Rightarrow> [Println [''Error writing suffix file:'', err]]))
     \<and> length (''-'' @ Sprintf_x (md5_Sum (fullKatiSuffix config))) = 33
     \<and> (\<forall>c \<in> set (Sprintf_x (md5_Sum (fullKatiSuffix config))). c \<in> set ''0123456789abcdef'')
     \<and> fst (runKati md5_Sum ninjaFile (os\<lparr>writeFileErr := Some err\<rparr>) config)
         = fst (runKati md5_Sum ninjaFile (os\<lparr>writeFileErr := None\<rparr>) config)
     \<and> fst (snd (runKati md5_Sum ninjaFile (os\<lparr>writeFileErr := Some err\<rparr>) config))
         = config\<lparr>KatiSuffix := ''-'' @ Sprintf_x (md5_Sum (fullKatiSuffix config))\<rparr>"
proof
  assume long: "64 < length (fullKatiSuffix config)"
  let ?short = "''-'' @ Sprintf_x (md5_Sum (fullKatiSuffix config))"
  have g: "genKatiSuffix md5_Sum ninjaFile w config =
       (config\<lparr>KatiSuffix := ?short\<rparr>,
        [SetKatiSuffix ?short,
         Verbosef ''Kati ninja suffix too long: %q'' (fullKatiSuffix config),
         Verbosef ''Replacing with: %q'' ?short,
         WriteFile (TrimSuffix (ninjaFile (config\<lparr>KatiSuffix := ?short\<rparr>)) ''ninja'' @ ''suf'')
           (fullKatiSuffix config) 0x1FF] @
        (case w of None \<Rightarrow> [] | Some err \<Rightarrow> [Println [''Error writing suffix file:'', err]]))"
    for w
    using long by (simp add: genKatiSuffix_def Let_def split: option.split)
  have r: "fst (runKati md5_Sum ninjaFile (os\<lparr>writeFileErr := Some err\<rparr>) config)
         = fst (runKati md5_Sum ninjaFile (os\<lparr>writeFileErr := None\<rparr>) config)"
    "fst (snd (runKati md5_Sum ninjaFile (os\<lparr>writeFileErr := Some err\<rparr>) config))
         = config\<lparr>KatiSuffix := ?short\<rparr>"
    by (simp_all add: runKati_def g Let_def cmd_Wait_def split: option.split wait_result.split process.split)
  from g [of writeErr] r Sprintf_x_shape [of "md5_Sum (fullKatiSuffix config)"]
  show "genKatiSuffix md5_Sum ninjaFile writeErr config =
       (config\<lparr>KatiSuffix := ?short\<rparr>,
        [SetKatiSuffix ?short,
         Verbosef ''Kati ninja suffix too long: %q'' (fullKatiSuffix config),
         Verbosef ''Replacing with: %q'' ?short,
         WriteFile (TrimSuffix (ninjaFile (config\<lparr>KatiSuffix := ?short\<rparr>)) ''ninja'' @ ''suf'')
           (fullKatiSuffix config) 0x1FF] @
        (case writeErr of
           None \<Rightarrow> []
         | Some err \<Rightarrow> [Println [''Error writing suffix file:'', err]]))
     \<and> length ?short = 33
     \<and> (\<forall>c \<in> set (Sprintf_x (md5_Sum (fullKatiSuffix config))). c \<in> set ''0123456789abcdef'')
     \<and> fst (runKati md5_Sum ninjaFile (os\<lparr>writeFileErr := Some err\<rparr>) config)
         = fst (runKati md5_Sum ninjaFile (os\<lparr>writeFileErr := None\<rparr>) config)
     \<and> fst (snd (runKati md5_Sum ninjaFile (os\<lparr>writeFileErr := Some err\<rparr>) config))
         = config\<lparr>KatiSuffix := ?short\<rparr>"
    by simp
qed

theorem long_suffix_replaced_by_hash_witness:
  "fullKatiSuffix
     \<lparr>TargetProduct = ''aosp_arm64'',
      KatiArgs = [''showcommands'', ''dist''],
      Environment = [''ONE_SHOT_MAKEFILE'' \<mapsto> ''packages/apps/Settings/Android.mk frameworks/base/Android.mk''],
      KatiSuffix = ''''\<rparr>
     = ''-aosp_arm64-showcommands_dist-packages_apps_Settings_Android.mk_frameworks_base_Android.mk'' \<and>
   64 < length (fullKatiSuffix
     \<lparr>TargetProduct = ''aosp_arm64'',
      KatiArgs = [''showcommands'', ''dist''],
      Environment = [''ONE_SHOT_MAKEFILE'' \<mapsto> ''packages/apps/Settings/Android.mk frameworks/base/Android.mk''],
      KatiSuffix = ''''\<rparr>) \<and>
   genKatiSuffix sample_Sum sample_KatiNinjaFile (Some ''permission denied'')
     \<lparr>TargetProduct = ''aosp_arm64'',
      KatiArgs = [''showcommands'', ''dist''],
      Environment = [''ONE_SHOT_MAKEFILE'' \<mapsto> ''packages/apps/Settings/Android.mk frameworks/base/Android.mk''],
      KatiSuffix = ''''\<rparr>
   = (\<lparr>TargetProduct = ''aosp_arm64'',
       KatiArgs = [''showcommands'', ''dist''],
       Environment = [''ONE_SHOT_MAKEFILE'' \<mapsto> ''packages/apps/Settings/Android.mk frameworks/base/Android.mk''],
       KatiSuffix = ''-0000000000000000000000000000005a''\<rparr>,
      [SetKatiSuffix ''-0000000000000000000000000000005a'',
       Verbosef ''Kati ninja suffix too long: %q''
         ''-aosp_arm64-showcommands_dist-packages_apps_Settings_Android.mk_frameworks_base_Android.mk'',
       Verbosef ''Replacing with: %q'' ''-0000000000000000000000000000005a'',
       WriteFile ''out/build-0000000000000000000000000000005a.suf''
         ''-aosp_arm64-showcommands_dist-packages_apps_Settings_Android.mk_frameworks_base_Android.mk''
         0x1FF,
       Println [''Error writing suffix file:'', ''permission denied'']])"
proof -
  let ?cfg = "\<lparr>TargetProduct = ''aosp_arm64'',
      KatiArgs = [''showcommands'', ''dist''],
      Environment = [''ONE_SHOT_MAKEFILE'' \<mapsto> ''packages/apps/Settings/Android.mk frameworks/base/Android.mk''],
      KatiSuffix = ''''\<rparr>"
  have f: "fullKatiSuffix ?cfg
     = ''-aosp_arm64-showcommands_dist-packages_apps_Settings_Android.mk_frameworks_base_Android.mk''"
    by (simp add: fullKatiSuffix_def spaceSlashReplacer_Replace_def)
  have l: "64 < length (fullKatiSuffix ?cfg)" by (simp add: f)
  have d: "Sprintf_x (sample_Sum (fullKatiSuffix ?cfg)) = ''0000000000000000000000000000005a''"
    by (simp add: f sample_Sum_def Sprintf_x_def hexdigit_def upt_rec drop_bit_eq_div)
  from long_suffix_replaced_by_hash
    [of ?cfg sample_Sum sample_KatiNinjaFile "Some ''permission denied''"] l
  have "genKatiSuffix sample_Sum sample_KatiNinjaFile (Some ''permission denied'') ?cfg =
       (?cfg\<lparr>KatiSuffix := ''-'' @ Sprintf_x (sample_Sum (fullKatiSuffix ?cfg))\<rparr>,
        [SetKatiSuffix (''-'' @ Sprintf_x (sample_Sum (fullKatiSuffix ?cfg))),
         Verbosef ''Kati ninja suffix too long: %q'' (fullKatiSuffix ?cfg),
         Verbosef ''Replacing with: %q'' (''-'' @ Sprintf_x (sample_Sum (fullKatiSuffix ?cfg))),
         WriteFile
           (TrimSuffix
              (sample_KatiNinjaFile (?cfg\<lparr>KatiSuffix := ''-'' @ Sprintf_x (sample_Sum (fullKatiSuffix ?cfg))\<rparr>))
              ''ninja'' @ ''suf'')
           (fullKatiSuffix ?cfg) 0x1FF] @
        (case Some ''permission denied'' of
           None \<Rightarrow> []
         | Some err \<Rightarrow> [Println [''Error writing suffix file:'', err]]))"
    by blast
  then have "genKatiSuffix sample_Sum sample_KatiNinjaFile (Some ''permission denied'') ?cfg
   = (\<lparr>TargetProduct = ''aosp_arm64'',
       KatiArgs = [''showcommands'', ''dist''],
       Environment = [''ONE_SHOT_MAKEFILE'' \<mapsto> ''packages/apps/Settings/Android.mk frameworks/base/Android.mk''],
       KatiSuffix = ''-0000000000000000000000000000005a''\<rparr>,
      [SetKatiSuffix ''-0000000000000000000000000000005a'',
       Verbosef ''Kati ninja suffix too long: %q''
         ''-aosp_arm64-showcommands_dist-packages_apps_Settings_Android.mk_frameworks_base_Android.mk'',
       Verbosef ''Replacing with: %q'' ''-0000000000000000000000000000005a'',
       WriteFile ''out/build-0000000000000000000000000000005a.suf''
         ''-aosp_arm64-showcommands_dist-packages_apps_Settings_Android.mk_frameworks_base_Android.mk''
         0x1FF,
       Println [''Error writing suffix file:'', ''permission denied'']])"
    unfolding d unfolding f
    by (simp add: sample_KatiNinjaFile_def TrimSuffix_def)
  with f l show ?thesis by simp
qed

section \<open>The classification of lines\<close>

lemma rmatch_Plus_once: "q \<in> set (rmatch r p) \<Longrightarrow> q \<in> set (rmatch (Plus r) p)"
  by (subst rmatch.simps(10)) (simp add: Let_def del: rmatch.simps)

lemma rmatch_Plus_more:
  assumes "q \<in> set (rmatch r p)" "length (snd q) < length (snd p)" "q' \<in> set (rmatch (Plus r) q)"
  shows "q' \<in> set (rmatch (Plus r) p)"
  using assms by (subst rmatch.simps(10)) (auto simp add: Let_def simp del: rmatch.simps)

lemma rmatch_Cat_in:
  "q \<in> set (rmatch r1 p) \<Longrightarrow> q' \<in> set (rmatch r2 q) \<Longrightarrow> q' \<in> set (rmatch (Cat r1 r2) p)"
  by (subst rmatch.simps(8)) (auto simp del: rmatch.simps)

lemma step1_in:
  assumes "ok c" "DecodeRune_width (c # cs) = n"
  shows "(False, drop n (c # cs)) \<in> set (step1 ok (b, c # cs))"
  using assms by (simp add: step1_def del: DecodeRune_width.simps)

lemma ascii_width:
  "(of_char c :: nat) < 0x80 \<Longrightarrow> DecodeRune_width (c # s) = 1"
  by (simp add: Let_def)

lemma digit_ascii: "CHR ''0'' \<le> c \<Longrightarrow> c \<le> CHR ''9'' \<Longrightarrow> (of_char c :: nat) < 0x80"
  by (simp add: less_eq_char_def)

lemma digit_step:
  assumes "CHR ''0'' \<le> d" "d \<le> CHR ''9''"
  shows "(False, s) \<in> set (rmatch Digit (b, d # s))"
proof -
  from assms have "DecodeRune_width (d # s) = 1" by (intro ascii_width digit_ascii)
  from step1_in [of "\<lambda>x. CHR ''0'' \<le> x \<and> x \<le> CHR ''9''" d s 1 b, OF _ this] assms
  show ?thesis by (simp del: DecodeRune_width.simps)
qed


lemma digits_match:
  assumes "ds \<noteq> []" "\<forall>c \<in> set ds. CHR ''0'' \<le> c \<and> c \<le> CHR ''9''"
  shows "(False, rest) \<in> set (rmatch (Plus Digit) (b, ds @ rest))"
  using assms
proof (induction ds arbitrary: b)
  case Nil
  then show ?case by simp
next
  case (Cons d ds)
  from Cons.prems have d: "CHR ''0'' \<le> d" "d \<le> CHR ''9''" by simp_all
  from digit_step [OF d] have one: "(False, ds @ rest) \<in> set (rmatch Digit (b, d # ds @ rest))" .
  show ?case
  proof (cases "ds = []")
    case True
    from rmatch_Plus_once [OF one] True show ?thesis by (simp del: rmatch.simps)
  next
    case False
    from Cons.IH [OF False, of False] Cons.prems
    have more: "(False, rest) \<in> set (rmatch (Plus Digit) (False, ds @ rest))"
      by (simp del: rmatch.simps)
    have "length (snd (False, ds @ rest)) < length (snd (b, d # ds @ rest))" by simp
    from rmatch_Plus_more [OF one this more] show ?thesis by (simp del: rmatch.simps)
  qed
qed


lemma DecodeRune_size_lo:
  "DecodeRune_size c = Some (sz, lo, hi) \<Longrightarrow> 0x80 \<le> lo"
  by (auto simp add: Let_def split: if_splits)

lemma space_not_in: "0x80 \<le> lo \<Longrightarrow> \<not> byte_in CHR '' '' lo hi"
  by (simp add: byte_in_def)

lemma width_le_4: "DecodeRune_width s \<le> 4"
  by (cases s) (auto simp del: DecodeRune_size.simps split: option.split)

lemma width_pos: "0 < DecodeRune_width (c # s)"
  by (auto simp del: DecodeRune_size.simps split: option.split)

lemma width_token:
  "DecodeRune_width (c # cs @ CHR '' '' # rest) \<le> length (c # cs)"
proof (cases "DecodeRune_size c")
  case None
  then show ?thesis by (simp del: DecodeRune_size.simps)
next
  case (Some t)
  obtain sz lo hi where t: "t = (sz, lo, hi)" by (cases t)
  from Some t have "DecodeRune_size c = Some (sz, lo, hi)" by simp
  then have lo: "\<not> byte_in CHR '' '' lo hi"
    by (intro space_not_in) (rule DecodeRune_size_lo)
  have cb: "\<not> byte_in CHR '' '' 0x80 0xBF" by (simp add: byte_in_def)
  show ?thesis
  proof (cases cs)
    case Nil
    with Some t lo show ?thesis by (simp del: DecodeRune_size.simps)
  next
    case c1: (Cons x xs)
    show ?thesis
    proof (cases xs)
      case Nil
      with c1 Some t cb show ?thesis by (simp del: DecodeRune_size.simps)
    next
      case c2: (Cons y ys)
      show ?thesis
      proof (cases ys)
        case Nil
        with c1 c2 Some t cb show ?thesis by (simp del: DecodeRune_size.simps)
      next
        case (Cons z zs)
        with c1 c2 width_le_4 [of "c # cs @ CHR '' '' # rest"] show ?thesis by simp
      qed
    qed
  qed
qed

lemma token_match:
  assumes "tok \<noteq> []" "CHR '' '' \<notin> set tok"
  shows "(False, CHR '' '' # rest) \<in> set (rmatch (Plus (NotLit CHR '' '')) (b, tok @ CHR '' '' # rest))"
  using assms
proof (induction "length tok" arbitrary: tok b rule: less_induct)
  case less
  from less.prems obtain c cs where tok: "tok = c # cs" by (cases tok) auto
  define n where "n = DecodeRune_width (c # cs @ CHR '' '' # rest)"
  have n: "0 < n" "n \<le> length tok"
    using width_pos [of c "cs @ CHR '' '' # rest"] width_token [of c cs rest]
    by (simp_all add: n_def tok del: DecodeRune_width.simps)
  from less.prems tok have "c \<noteq> CHR '' ''" by auto
  from step1_in [of "\<lambda>x. x \<noteq> CHR '' ''" c "cs @ CHR '' '' # rest" n b, OF this] n_def
  have "(False, drop n (c # cs @ CHR '' '' # rest))
          \<in> set (rmatch (NotLit CHR '' '') (b, c # cs @ CHR '' '' # rest))"
    by (simp del: DecodeRune_width.simps)
  moreover have "drop n (tok @ CHR '' '' # rest) = drop n tok @ CHR '' '' # rest"
    using n by simp
  ultimately have one: "(False, drop n tok @ CHR '' '' # rest)
          \<in> set (rmatch (NotLit CHR '' '') (b, tok @ CHR '' '' # rest))"
    unfolding tok by (simp only: append_Cons)
  show ?case
  proof (cases "drop n tok = []")
    case True
    from rmatch_Plus_once [OF one] True show ?thesis by (simp del: rmatch.simps)
  next
    case False
    have "length (drop n tok) < length tok" using n by simp
    moreover have "CHR '' '' \<notin> set (drop n tok)"
      using less.prems(2) by (meson in_set_dropD)
    ultimately have more: "(False, CHR '' '' # rest)
        \<in> set (rmatch (Plus (NotLit CHR '' '')) (False, drop n tok @ CHR '' '' # rest))"
      using False by (intro less.hyps)
    have "length (snd (False, drop n tok @ CHR '' '' # rest))
            < length (snd (b, tok @ CHR '' '' # rest))"
      using n by simp
    from rmatch_Plus_more [OF one this more] show ?thesis .
  qed
qed


lemma lit_step:
  assumes "(of_char c :: nat) < 0x80"
  shows "(False, s) \<in> set (rmatch (Lit c) (b, c # s))"
proof -
  from assms have "DecodeRune_width (c # s) = 1" by (rule ascii_width)
  from step1_in [of "\<lambda>x. x = c" c s 1 b, OF _ this]
  show ?thesis by (simp del: DecodeRune_width.simps)
qed

lemma any_step:
  assumes "(of_char c :: nat) < 0x80" "c \<noteq> CHR 0x0A"
  shows "(False, s) \<in> set (rmatch AnyCharNotNL (b, c # s))"
proof -
  from assms have "DecodeRune_width (c # s) = 1" by (intro ascii_width)
  from step1_in [of "\<lambda>x. x \<noteq> CHR 0x0A" c s 1 b, OF _ this] assms(2)
  show ?thesis by (simp del: DecodeRune_width.simps)
qed

lemma lits_match:
  assumes "\<forall>c \<in> set lit. (of_char c :: nat) < 0x80" "lit \<noteq> []"
  shows "(False, s) \<in> set (rmatch (Lits lit) (b, lit @ s))"
  using assms
proof (induction lit arbitrary: b)
  case Nil
  then show ?case by simp
next
  case (Cons c lit)
  from Cons.prems have "(of_char c :: nat) < 0x80" by simp
  from lit_step [OF this] have one: "(False, lit @ s) \<in> set (rmatch (Lit c) (b, c # lit @ s))" .
  show ?case
  proof (cases "lit = []")
    case True
    with one show ?thesis by (simp del: rmatch.simps(4))
  next
    case False
    with Cons.IH [of False] Cons.prems
    have "(False, s) \<in> set (rmatch (Lits lit) (False, lit @ s))" by simp
    from rmatch_Cat_in [OF one this] show ?thesis by (simp del: rmatch.simps)
  qed
qed

lemma tail_match:
  "(False, []) \<in> set (rmatch (Cats [Lit CHR '' '', AnyCharNotNL, AnyCharNotNL, AnyCharNotNL, EndText])
                        (b, '' ...''))"
  by (simp add: step1_def)

lemma core_match:
  assumes "tok \<noteq> []" "CHR '' '' \<notin> set tok"
  shows "(False, []) \<in> set (rmatch
            (Cats [Lits ''including '', Plus (NotLit CHR '' ''),
                   Lit CHR '' '', AnyCharNotNL, AnyCharNotNL, AnyCharNotNL, EndText])
            (b, ''including '' @ tok @ '' ...''))"
proof -
  have 1: "(False, tok @ '' ...'') \<in> set (rmatch (Lits ''including '') (b, ''including '' @ tok @ '' ...''))"
    by (rule lits_match) simp_all
  from token_match [OF assms, of "''...''" False]
  have 2: "(False, '' ...'') \<in> set (rmatch (Plus (NotLit CHR '' '')) (False, tok @ '' ...''))"
    by (simp del: rmatch.simps)
  note 3 = tail_match [of False]
  from rmatch_Cat_in [OF 1 rmatch_Cat_in [OF 2 3]] show ?thesis
    by (simp only: Cats.simps)
qed

lemma counter_match:
  assumes "n \<noteq> []" "\<forall>c \<in> set n. CHR ''0'' \<le> c \<and> c \<le> CHR ''9''"
    "m \<noteq> []" "\<forall>c \<in> set m. CHR ''0'' \<le> c \<and> c \<le> CHR ''9''"
  shows "(False, s) \<in> set (rmatch
            (Cats [Lit CHR ''['', Plus Digit, Lit CHR ''/'', Plus Digit, Lits ''] ''])
            (b, ''['' @ n @ ''/'' @ m @ ''] '' @ s))"
proof -
  have 1: "(False, n @ ''/'' @ m @ ''] '' @ s)
             \<in> set (rmatch (Lit CHR ''['') (b, CHR ''['' # n @ ''/'' @ m @ ''] '' @ s))"
    by (rule lit_step) simp
  note 2 = digits_match [OF assms(1,2), of "''/'' @ m @ ''] '' @ s" False]
  have 3: "(False, m @ ''] '' @ s) \<in> set (rmatch (Lit CHR ''/'') (False, ''/'' @ m @ ''] '' @ s))"
    using lit_step [of "CHR ''/''" "m @ ''] '' @ s" False] by (simp del: rmatch.simps)
  note 4 = digits_match [OF assms(3,4), of "''] '' @ s" False]
  have 5: "(False, s) \<in> set (rmatch (Lits ''] '') (False, ''] '' @ s))"
    by (rule lits_match) simp_all
  have 6: "(False, s) \<in> set (rmatch EmptyMatch (False, s))" by simp
  from rmatch_Cat_in [OF 1 rmatch_Cat_in [OF 2 rmatch_Cat_in [OF 3 rmatch_Cat_in [OF 4 rmatch_Cat_in [OF 5 6]]]]]
  show ?thesis by (simp only: Cats.simps append_Cons append_Nil)
qed

lemma MatchString_from_start:
  "q \<in> set (rmatch re (True, s)) \<Longrightarrow> MatchString re s"
  unfolding MatchString_def by (subst search.simps) (auto simp del: search.simps rmatch.simps)

text \<open>
  Every line of the literal form is a progress line: \<open>including\<close>, a space, a file token
  without a space, a space and three dots, with or without a counter in front.
\<close>

lemma literal_form_is_verbose:
  assumes "tok \<noteq> []" "CHR '' '' \<notin> set tok"
  shows "verbose (''including '' @ tok @ '' ...'')"
    and "n \<noteq> [] \<Longrightarrow> \<forall>c \<in> set n. CHR ''0'' \<le> c \<and> c \<le> CHR ''9'' \<Longrightarrow>
         m \<noteq> [] \<Longrightarrow> \<forall>c \<in> set m. CHR ''0'' \<le> c \<and> c \<le> CHR ''9'' \<Longrightarrow>
         verbose (''['' @ n @ ''/'' @ m @ ''] '' @ ''including '' @ tok @ '' ...'')"
proof -
  let ?core = "Cats [Lits ''including '', Plus (NotLit CHR '' ''),
                   Lit CHR '' '', AnyCharNotNL, AnyCharNotNL, AnyCharNotNL, EndText]"
  let ?counter = "Cats [Lit CHR ''['', Plus Digit, Lit CHR ''/'', Plus Digit, Lits ''] '']"
  have re: "katiIncludeRe = Cat BeginText (Cat (Quest ?counter) ?core)"
    by (simp add: katiIncludeRe_def)
  have b: "(True, s) \<in> set (rmatch BeginText (True, s))" for s by simp
  have skip: "(True, s) \<in> set (rmatch (Quest ?counter) (True, s))" for s
    by (subst rmatch.simps(9)) (simp del: rmatch.simps)
  from rmatch_Cat_in [OF b rmatch_Cat_in [OF skip core_match [OF assms, of True]]]
  show "verbose (''including '' @ tok @ '' ...'')"
    unfolding verbose_def re by (rule MatchString_from_start)
  assume c: "n \<noteq> []" "\<forall>c \<in> set n. CHR ''0'' \<le> c \<and> c \<le> CHR ''9''"
    "m \<noteq> []" "\<forall>c \<in> set m. CHR ''0'' \<le> c \<and> c \<le> CHR ''9''"
  have take: "(False, ''including '' @ tok @ '' ...'')
     \<in> set (rmatch (Quest ?counter) (True, ''['' @ n @ ''/'' @ m @ ''] '' @ ''including '' @ tok @ '' ...''))"
    using counter_match [OF c, of "''including '' @ tok @ '' ...''" True]
    by (subst rmatch.simps(9)) (simp del: rmatch.simps)
  from rmatch_Cat_in [OF b rmatch_Cat_in [OF take core_match [OF assms, of False]]]
  show "verbose (''['' @ n @ ''/'' @ m @ ''] '' @ ''including '' @ tok @ '' ...'')"
    unfolding verbose_def re by (rule MatchString_from_start)
qed

lemma step1_elim:
  assumes "q \<in> set (step1 ok (b, s))"
  obtains c cs where "s = c # cs" "ok c" "q = (False, drop (DecodeRune_width s) s)"
  using assms by (cases s) (auto simp add: step1_def simp del: DecodeRune_width.simps split: if_splits)

lemma consumed_high:
  assumes "x \<in> set (take (DecodeRune_width (c # s) - 1) s)"
  shows "0x80 \<le> (of_char x :: nat)"
proof (cases "DecodeRune_size c")
  case None
  with assms show ?thesis by (simp del: DecodeRune_size.simps)
next
  case (Some t)
  obtain sz lo hi where t: "t = (sz, lo, hi)" by (cases t)
  from Some t have lo: "0x80 \<le> lo" using DecodeRune_size_lo [of c sz lo hi] by simp
  show ?thesis
  proof (cases "DecodeRune_width (c # s) = 1")
    case True
    with assms show ?thesis by (simp del: DecodeRune_width.simps)
  next
    case False
    with Some t have l: "\<not> length (c # s) < sz" and b0: "byte_in (s ! 0) lo hi"
      by (auto simp del: DecodeRune_size.simps split: if_splits)
    from b0 lo have h0: "0x80 \<le> (of_char (s ! 0) :: nat)" by (simp add: byte_in_def)
    show ?thesis
    proof (cases "DecodeRune_width (c # s) = 2")
      case True
      with assms have "x \<in> set (take 1 s)" by (simp del: DecodeRune_width.simps)
      then have "x = s ! 0" by (cases s) auto
      with h0 show ?thesis by simp
    next
      case n2: False
      with False Some t l b0 have b1: "byte_in (s ! 1) 0x80 0xBF" and sz3: "\<not> sz \<le> 2"
        by (auto simp del: DecodeRune_size.simps split: if_splits)
      then have h1: "0x80 \<le> (of_char (s ! 1) :: nat)" by (simp add: byte_in_def)
      show ?thesis
      proof (cases "DecodeRune_width (c # s) = 3")
        case True
        with assms have "x \<in> set (take 2 s)" by (simp del: DecodeRune_width.simps)
        moreover from l sz3 have "2 \<le> length s" by simp
        ultimately have "x = s ! 0 \<or> x = s ! 1"
          by (cases s; cases "tl s") auto
        with h0 h1 show ?thesis by auto
      next
        case n3: False
        with False n2 Some t l b0 b1 have b2: "byte_in (s ! 2) 0x80 0xBF" and sz4: "\<not> sz \<le> 3"
          and w4: "DecodeRune_width (c # s) = 4"
          by (auto simp del: DecodeRune_size.simps split: if_splits)
        then have h2: "0x80 \<le> (of_char (s ! 2) :: nat)" by (simp add: byte_in_def)
        from w4 assms have "x \<in> set (take 3 s)" by (simp del: DecodeRune_width.simps)
        moreover from l sz4 have "3 \<le> length s" by simp
        ultimately have "x = s ! 0 \<or> x = s ! 1 \<or> x = s ! 2"
          by (cases s; cases "tl s"; cases "tl (tl s)") auto
        with h0 h1 h2 show ?thesis by auto
      qed
    qed
  qed
qed


lemma rune_without:
  assumes "t \<noteq> []" "hd t \<noteq> x" "(of_char x :: nat) < 0x80"
  shows "x \<notin> set (take (DecodeRune_width t) t)"
proof
  assume x: "x \<in> set (take (DecodeRune_width t) t)"
  from assms(1) obtain c s where t: "t = c # s" by (cases t) auto
  from width_pos [of c s] obtain k where k: "DecodeRune_width (c # s) = Suc k"
    by (cases "DecodeRune_width (c # s)") auto
  from x t k assms(2) have "x \<in> set (take (DecodeRune_width (c # s) - 1) s)"
    by (simp del: DecodeRune_width.simps)
  from consumed_high [OF this] assms(3) show False by simp
qed

lemma Plus_elim:
  "q \<in> set (rmatch (Plus r) p) \<Longrightarrow> iter r p q"
proof (induction "length (snd p)" arbitrary: p rule: less_induct)
  case less
  from less.prems have "q \<in> set (rmatch r p) \<or>
     (\<exists>q1 \<in> set (rmatch r p). length (snd q1) < length (snd p) \<and> q \<in> set (rmatch (Plus r) q1))"
    by (subst (asm) rmatch.simps(10)) (auto simp add: Let_def simp del: rmatch.simps split: if_splits)
  then show ?case
  proof
    assume "q \<in> set (rmatch r p)"
    then show ?thesis by (rule iter.once)
  next
    assume "\<exists>q1 \<in> set (rmatch r p). length (snd q1) < length (snd p) \<and> q \<in> set (rmatch (Plus r) q1)"
    then obtain q1 where q1: "q1 \<in> set (rmatch r p)" "length (snd q1) < length (snd p)"
      "q \<in> set (rmatch (Plus r) q1)" by blast
    from less.hyps [OF q1(2,3)] q1(1) show ?thesis by (blast intro: iter.more)
  qed
qed

lemma NotLit_elim:
  assumes "q \<in> set (rmatch (NotLit c) p)" "(of_char c :: nat) < 0x80"
  shows "\<exists>tok. tok \<noteq> [] \<and> c \<notin> set tok \<and> snd p = tok @ snd q \<and> \<not> fst q"
proof -
  obtain b s where p: "p = (b, s)" by (cases p)
  from assms(1) p have "q \<in> set (step1 (\<lambda>x. x \<noteq> c) (b, s))" by simp
  then obtain x xs where s: "s = x # xs" "x \<noteq> c" and q: "q = (False, drop (DecodeRune_width s) s)"
    by (rule step1_elim)
  let ?tok = "take (DecodeRune_width s) s"
  from s width_pos [of x xs] have "?tok \<noteq> []" by (simp del: DecodeRune_width.simps)
  moreover from s assms(2) have "c \<notin> set ?tok" by (intro rune_without) simp_all
  moreover from p q have "snd p = ?tok @ snd q" "\<not> fst q" by simp_all
  ultimately show ?thesis by blast
qed

lemma iter_NotLit:
  assumes "iter (NotLit c) p q" "(of_char c :: nat) < 0x80"
  shows "\<exists>tok. tok \<noteq> [] \<and> c \<notin> set tok \<and> snd p = tok @ snd q \<and> \<not> fst q"
  using assms
proof (induction rule: iter.induct)
  case (once q p)
  then show ?case by (rule NotLit_elim)
next
  case (more q1 p q)
  from NotLit_elim [OF more.hyps(1) more.prems] obtain t1 where
    t1: "t1 \<noteq> []" "c \<notin> set t1" "snd p = t1 @ snd q1" by blast
  from more.IH [OF more.prems] obtain t2 where
    t2: "c \<notin> set t2" "snd q1 = t2 @ snd q" "\<not> fst q" by blast
  from t1 t2 have "t1 @ t2 \<noteq> []" "c \<notin> set (t1 @ t2)" "snd p = (t1 @ t2) @ snd q" by simp_all
  with t2(3) show ?case by blast
qed

lemma Digit_elim:
  assumes "q \<in> set (rmatch Digit p)"
  shows "\<exists>d. CHR ''0'' \<le> d \<and> d \<le> CHR ''9'' \<and> snd p = d # snd q \<and> \<not> fst q"
proof -
  obtain b s where p: "p = (b, s)" by (cases p)
  from assms p have "q \<in> set (step1 (\<lambda>x. CHR ''0'' \<le> x \<and> x \<le> CHR ''9'') (b, s))" by simp
  then obtain x xs where s: "s = x # xs" "CHR ''0'' \<le> x \<and> x \<le> CHR ''9''"
    and q: "q = (False, drop (DecodeRune_width s) s)"
    by (rule step1_elim)
  from s have "(of_char x :: nat) < 0x80" by (intro digit_ascii) simp_all
  then have "DecodeRune_width (x # xs) = 1" by (rule ascii_width)
  with s q p show ?thesis by (simp del: DecodeRune_width.simps)
qed

lemma iter_Digit:
  assumes "iter Digit p q"
  shows "\<exists>ds. ds \<noteq> [] \<and> (\<forall>d \<in> set ds. CHR ''0'' \<le> d \<and> d \<le> CHR ''9'') \<and>
           snd p = ds @ snd q \<and> \<not> fst q"
  using assms
proof (induction rule: iter.induct)
  case (once q p)
  from Digit_elim [OF once] obtain d where
    "CHR ''0'' \<le> d \<and> d \<le> CHR ''9''" "snd p = [d] @ snd q" "\<not> fst q" by auto
  then have "[d] \<noteq> [] \<and> (\<forall>x \<in> set [d]. CHR ''0'' \<le> x \<and> x \<le> CHR ''9'') \<and>
      snd p = [d] @ snd q \<and> \<not> fst q" by simp
  then show ?case by blast
next
  case (more q1 p q)
  from Digit_elim [OF more.hyps(1)] obtain d where
    d: "CHR ''0'' \<le> d \<and> d \<le> CHR ''9''" "snd p = d # snd q1" by auto
  from more.IH obtain ds where
    ds: "\<forall>d \<in> set ds. CHR ''0'' \<le> d \<and> d \<le> CHR ''9''" "snd q1 = ds @ snd q" "\<not> fst q" by blast
  from d ds have "d # ds \<noteq> [] \<and> (\<forall>x \<in> set (d # ds). CHR ''0'' \<le> x \<and> x \<le> CHR ''9'') \<and>
      snd p = (d # ds) @ snd q \<and> \<not> fst q" by simp
  then show ?case by blast
qed

lemma Lit_elim:
  assumes "q \<in> set (rmatch (Lit c) p)" "(of_char c :: nat) < 0x80"
  shows "snd p = c # snd q \<and> \<not> fst q"
proof -
  obtain b s where p: "p = (b, s)" by (cases p)
  from assms(1) p have "q \<in> set (step1 (\<lambda>x. x = c) (b, s))" by simp
  then obtain x xs where s: "s = x # xs" "x = c" and q: "q = (False, drop (DecodeRune_width s) s)"
    by (rule step1_elim)
  from s assms(2) have "DecodeRune_width (x # xs) = 1" by (intro ascii_width) simp
  with s q p show ?thesis by (simp del: DecodeRune_width.simps)
qed

lemma Cat_elim:
  assumes "q \<in> set (rmatch (Cat r1 r2) p)"
  obtains m where "m \<in> set (rmatch r1 p)" "q \<in> set (rmatch r2 m)"
  using assms by (subst (asm) rmatch.simps(8)) (auto simp del: rmatch.simps)

lemma Lits_elim:
  assumes "q \<in> set (rmatch (Lits lit) p)" "\<forall>c \<in> set lit. (of_char c :: nat) < 0x80" "lit \<noteq> []"
  shows "snd p = lit @ snd q \<and> \<not> fst q"
  using assms
proof (induction lit arbitrary: p)
  case Nil
  then show ?case by simp
next
  case (Cons c lit)
  from Cons.prems(1) obtain m where m: "m \<in> set (rmatch (Lit c) p)" "q \<in> set (rmatch (Lits lit) m)"
    by (simp only: Lits.simps) (erule Cat_elim)
  from Lit_elim [OF m(1)] Cons.prems(2) have 1: "snd p = c # snd m" "\<not> fst m" by simp_all
  show ?case
  proof (cases "lit = []")
    case True
    with m(2) have "q = m" by simp
    with 1 True show ?thesis by simp
  next
    case False
    from Cons.IH [OF m(2) _ False] Cons.prems(2) have "snd m = lit @ snd q \<and> \<not> fst q" by simp
    with 1 show ?thesis by simp
  qed
qed


lemma Any_elim:
  assumes "q \<in> set (rmatch AnyCharNotNL p)"
  shows "snd p \<noteq> [] \<and> hd (snd p) \<noteq> CHR 0x0A \<and> q = (False, drop (DecodeRune_width (snd p)) (snd p))"
proof -
  obtain b s where p: "p = (b, s)" by (cases p)
  from assms p have "q \<in> set (step1 (\<lambda>x. x \<noteq> CHR 0x0A) (b, s))" by simp
  then obtain x xs where "s = x # xs" "x \<noteq> CHR 0x0A" "q = (False, drop (DecodeRune_width s) s)"
    by (rule step1_elim)
  with p show ?thesis by (simp del: DecodeRune_width.simps)
qed

lemma Any_step:
  assumes "t \<noteq> []" "hd t \<noteq> CHR 0x0A"
  shows "(False, drop (DecodeRune_width t) t) \<in> set (rmatch AnyCharNotNL (b, t))"
proof -
  from assms obtain c cs where t: "t = c # cs" "c \<noteq> CHR 0x0A" by (cases t) auto
  from step1_in [of "\<lambda>x. x \<noteq> CHR 0x0A" c cs "DecodeRune_width (c # cs)" b] t
  show ?thesis by (simp del: DecodeRune_width.simps)
qed

lemma RuneCount_Suc:
  "t \<noteq> [] \<Longrightarrow> RuneCountInString t = Suc (RuneCountInString (drop (DecodeRune_width t) t))"
  by (subst RuneCountInString.simps) simp

lemma RuneCount_Nil: "RuneCountInString [] = 0"
  by (subst RuneCountInString.simps) simp

lemma RuneCount_0: "RuneCountInString t = 0 \<Longrightarrow> t = []"
  by (subst (asm) RuneCountInString.simps) (simp split: if_splits)

lemma rune_split:
  "t = take (DecodeRune_width t) t @ drop (DecodeRune_width t) t"
  by simp

lemma three_runes_elim:
  assumes "q \<in> set (rmatch (Cats [AnyCharNotNL, AnyCharNotNL, AnyCharNotNL, EndText]) (b, t))"
  shows "RuneCountInString t = 3 \<and> CHR 0x0A \<notin> set t"
proof -
  let ?d = "\<lambda>t. drop (DecodeRune_width t) t"
  from assms obtain p1 where p1: "p1 \<in> set (rmatch AnyCharNotNL (b, t))"
    "q \<in> set (rmatch (Cats [AnyCharNotNL, AnyCharNotNL, EndText]) p1)"
    by (simp only: Cats.simps) (erule Cat_elim)
  from p1(2) obtain p2 where p2: "p2 \<in> set (rmatch AnyCharNotNL p1)"
    "q \<in> set (rmatch (Cats [AnyCharNotNL, EndText]) p2)"
    by (simp only: Cats.simps) (erule Cat_elim)
  from p2(2) obtain p3 where p3: "p3 \<in> set (rmatch AnyCharNotNL p2)"
    "q \<in> set (rmatch (Cats [EndText]) p3)"
    by (simp only: Cats.simps) (erule Cat_elim)
  from Any_elim [OF p1(1)] have 1: "t \<noteq> []" "hd t \<noteq> CHR 0x0A" "p1 = (False, ?d t)" by simp_all
  from Any_elim [OF p2(1)] 1 have 2: "?d t \<noteq> []" "hd (?d t) \<noteq> CHR 0x0A" "p2 = (False, ?d (?d t))"
    by simp_all
  from Any_elim [OF p3(1)] 2 have 3: "?d (?d t) \<noteq> []" "hd (?d (?d t)) \<noteq> CHR 0x0A"
    "p3 = (False, ?d (?d (?d t)))"
    by simp_all
  from p3(2) 3 have 4: "?d (?d (?d t)) = []"
    by (simp split: if_splits del: DecodeRune_width.simps)
  have count: "RuneCountInString t = 3"
    using RuneCount_Suc [OF 1(1)] RuneCount_Suc [OF 2(1)] RuneCount_Suc [OF 3(1)] 4 RuneCount_Nil
    by simp
  have nl: "(of_char (CHR 0x0A) :: nat) < 0x80" by simp
  have "set t = set (take (DecodeRune_width t) t) \<union> set (?d t)"
    by (metis rune_split set_append)
  moreover have "set (?d t) = set (take (DecodeRune_width (?d t)) (?d t)) \<union> set (?d (?d t))"
    by (metis rune_split set_append)
  moreover have "set (?d (?d t)) = set (take (DecodeRune_width (?d (?d t))) (?d (?d t)))"
    using 4 by (metis rune_split append_Nil2)
  moreover note rune_without [OF 1(1,2) nl] rune_without [OF 2(1,2) nl] rune_without [OF 3(1,2) nl]
  ultimately have "CHR 0x0A \<notin> set t" by blast
  with count show ?thesis by simp
qed

lemma three_runes_match:
  assumes "RuneCountInString t = 3" "CHR 0x0A \<notin> set t"
  shows "(False, []) \<in> set (rmatch (Cats [AnyCharNotNL, AnyCharNotNL, AnyCharNotNL, EndText]) (b, t))"
proof -
  let ?d = "\<lambda>t. drop (DecodeRune_width t) t"
  have ne: "s \<noteq> []" if "RuneCountInString s = Suc k" for s k
    using that RuneCount_Nil by auto
  have nl: "hd s \<noteq> CHR 0x0A" if "s \<noteq> []" "set s \<subseteq> set t" for s
    using that assms(2) by (cases s) auto
  from assms(1) have 1: "t \<noteq> []" by (intro ne [of t 2]) simp
  with assms(1) RuneCount_Suc [OF 1] have c1: "RuneCountInString (?d t) = Suc 1" by simp
  then have 2: "?d t \<noteq> []" by (rule ne)
  with c1 RuneCount_Suc [OF 2] have c2: "RuneCountInString (?d (?d t)) = Suc 0" by simp
  then have 3: "?d (?d t) \<noteq> []" by (rule ne)
  with c2 RuneCount_Suc [OF 3] have "RuneCountInString (?d (?d (?d t))) = 0" by simp
  then have 4: "?d (?d (?d t)) = []" by (rule RuneCount_0)
  have s1: "set (?d t) \<subseteq> set t" by (rule set_drop_subset)
  have s2: "set (?d (?d t)) \<subseteq> set t" using set_drop_subset s1 by (rule order_trans)
  note a1 = Any_step [OF 1 nl [OF 1 subset_refl], of b]
  note a2 = Any_step [OF 2 nl [OF 2 s1], of False]
  note a3 = Any_step [OF 3 nl [OF 3 s2], of False]
  have e: "(False, []) \<in> set (rmatch (Cat EndText EmptyMatch) (False, ?d (?d (?d t))))"
    using 4 by (simp del: DecodeRune_width.simps)
  from rmatch_Cat_in [OF a1 rmatch_Cat_in [OF a2 rmatch_Cat_in [OF a3 e]]]
  show ?thesis by (simp only: Cats.simps)
qed

lemma search_later:
  assumes "\<And>s. rmatch re (False, s) = []"
  shows "\<not> search re (False, s)"
proof (induction "length s" arbitrary: s rule: less_induct)
  case less
  show ?case
  proof (cases s)
    case Nil
    with assms [of "[]"] show ?thesis by (subst search.simps) (simp del: search.simps rmatch.simps)
  next
    case (Cons c cs)
    from width_pos [of c cs] have "length (drop (DecodeRune_width s) s) < length s"
      by (simp add: Cons del: DecodeRune_width.simps)
    from less.hyps [OF this] assms [of s] show ?thesis
      by (subst search.simps) (simp del: search.simps rmatch.simps DecodeRune_width.simps)
  qed
qed

lemma MatchString_anchored:
  "MatchString (Cat BeginText r) s \<longleftrightarrow> rmatch r (True, s) \<noteq> []"
proof -
  have later: "rmatch (Cat BeginText r) (False, t) = []" for t by simp
  have first: "rmatch (Cat BeginText r) (True, s) = rmatch r (True, s)"
    by (subst rmatch.simps(8)) (simp del: rmatch.simps(8,10))
  show ?thesis
    unfolding MatchString_def
    using search_later [of "Cat BeginText r", OF later] first
    by (subst search.simps) (auto simp del: search.simps rmatch.simps)
qed


lemma in_set_nonempty: "x \<in> set xs \<Longrightarrow> xs \<noteq> []"
  by auto

lemma Quest_elim:
  assumes "q \<in> set (rmatch (Quest r) p)"
  shows "q = p \<or> q \<in> set (rmatch r p)"
  using assms by (subst (asm) rmatch.simps(9)) (auto simp del: rmatch.simps)

lemma core_elim:
  assumes "q \<in> set (rmatch
            (Cats [Lits ''including '', Plus (NotLit CHR '' ''),
                   Lit CHR '' '', AnyCharNotNL, AnyCharNotNL, AnyCharNotNL, EndText]) p)"
  shows "\<exists>tok t3. snd p = ''including '' @ tok @ '' '' @ t3 \<and> tok \<noteq> [] \<and> CHR '' '' \<notin> set tok \<and>
           RuneCountInString t3 = 3 \<and> CHR 0x0A \<notin> set t3"
proof -
  from assms obtain p1 where p1: "p1 \<in> set (rmatch (Lits ''including '') p)"
    "q \<in> set (rmatch (Cats [Plus (NotLit CHR '' ''),
                   Lit CHR '' '', AnyCharNotNL, AnyCharNotNL, AnyCharNotNL, EndText]) p1)"
    by (simp only: Cats.simps) (erule Cat_elim)
  from p1(2) obtain p2 where p2: "p2 \<in> set (rmatch (Plus (NotLit CHR '' '')) p1)"
    "q \<in> set (rmatch (Cats [Lit CHR '' '', AnyCharNotNL, AnyCharNotNL, AnyCharNotNL, EndText]) p2)"
    by (simp only: Cats.simps) (erule Cat_elim)
  from p2(2) obtain p3 where p3: "p3 \<in> set (rmatch (Lit CHR '' '') p2)"
    "q \<in> set (rmatch (Cats [AnyCharNotNL, AnyCharNotNL, AnyCharNotNL, EndText]) p3)"
    by (simp only: Cats.simps) (erule Cat_elim)
  have 1: "snd p = ''including '' @ snd p1"
    using Lits_elim [OF p1(1)] by simp
  from iter_NotLit [OF Plus_elim [OF p2(1)]] obtain tok where
    2: "tok \<noteq> []" "CHR '' '' \<notin> set tok" "snd p1 = tok @ snd p2" by auto
  from Lit_elim [OF p3(1)] have 3: "snd p2 = '' '' @ snd p3" by simp
  from three_runes_elim [of q "fst p3" "snd p3"] p3(2)
  have 4: "RuneCountInString (snd p3) = 3 \<and> CHR 0x0A \<notin> set (snd p3)" by simp
  from 1 2 3 4 show ?thesis by auto
qed

lemma counter_elim:
  assumes "q \<in> set (rmatch
            (Cats [Lit CHR ''['', Plus Digit, Lit CHR ''/'', Plus Digit, Lits ''] '']) p)"
  shows "\<exists>n m. snd p = ''['' @ n @ ''/'' @ m @ ''] '' @ snd q \<and> n \<noteq> [] \<and> m \<noteq> [] \<and>
           (\<forall>c \<in> set n. CHR ''0'' \<le> c \<and> c \<le> CHR ''9'') \<and>
           (\<forall>c \<in> set m. CHR ''0'' \<le> c \<and> c \<le> CHR ''9'')"
proof -
  from assms obtain p1 where p1: "p1 \<in> set (rmatch (Lit CHR ''['') p)"
    "q \<in> set (rmatch (Cats [Plus Digit, Lit CHR ''/'', Plus Digit, Lits ''] '']) p1)"
    by (simp only: Cats.simps) (erule Cat_elim)
  from p1(2) obtain p2 where p2: "p2 \<in> set (rmatch (Plus Digit) p1)"
    "q \<in> set (rmatch (Cats [Lit CHR ''/'', Plus Digit, Lits ''] '']) p2)"
    by (simp only: Cats.simps) (erule Cat_elim)
  from p2(2) obtain p3 where p3: "p3 \<in> set (rmatch (Lit CHR ''/'') p2)"
    "q \<in> set (rmatch (Cats [Plus Digit, Lits ''] '']) p3)"
    by (simp only: Cats.simps) (erule Cat_elim)
  from p3(2) obtain p4 where p4: "p4 \<in> set (rmatch (Plus Digit) p3)"
    "q \<in> set (rmatch (Cats [Lits ''] '']) p4)"
    by (simp only: Cats.simps) (erule Cat_elim)
  from p4(2) obtain p5 where p5: "p5 \<in> set (rmatch (Lits ''] '') p4)"
    "q \<in> set (rmatch EmptyMatch p5)"
    by (simp only: Cats.simps) (erule Cat_elim)
  from p5(2) have q: "q = p5" by simp
  from Lit_elim [OF p1(1)] have 1: "snd p = ''['' @ snd p1" by simp
  from iter_Digit [OF Plus_elim [OF p2(1)]] obtain n where
    2: "n \<noteq> []" "\<forall>c \<in> set n. CHR ''0'' \<le> c \<and> c \<le> CHR ''9''" "snd p1 = n @ snd p2" by auto
  from Lit_elim [OF p3(1)] have 3: "snd p2 = ''/'' @ snd p3" by simp
  from iter_Digit [OF Plus_elim [OF p4(1)]] obtain m where
    4: "m \<noteq> []" "\<forall>c \<in> set m. CHR ''0'' \<le> c \<and> c \<le> CHR ''9''" "snd p3 = m @ snd p4" by auto
  from Lits_elim [OF p5(1)] q have 5: "snd p4 = ''] '' @ snd q" by simp
  from 1 2 3 4 5 show ?thesis by auto
qed

lemma core_match_runes:
  assumes "tok \<noteq> []" "CHR '' '' \<notin> set tok" "RuneCountInString t3 = 3" "CHR 0x0A \<notin> set t3"
  shows "(False, []) \<in> set (rmatch
            (Cats [Lits ''including '', Plus (NotLit CHR '' ''),
                   Lit CHR '' '', AnyCharNotNL, AnyCharNotNL, AnyCharNotNL, EndText])
            (b, ''including '' @ tok @ '' '' @ t3))"
proof -
  have 1: "(False, tok @ '' '' @ t3)
      \<in> set (rmatch (Lits ''including '') (b, ''including '' @ tok @ '' '' @ t3))"
    by (rule lits_match) simp_all
  from token_match [OF assms(1,2), of t3 False]
  have 2: "(False, '' '' @ t3) \<in> set (rmatch (Plus (NotLit CHR '' '')) (False, tok @ '' '' @ t3))"
    by (simp del: rmatch.simps)
  have 3: "(False, t3) \<in> set (rmatch (Lit CHR '' '') (False, '' '' @ t3))"
    using lit_step [of "CHR '' ''" t3 False] by (simp del: rmatch.simps)
  note 4 = three_runes_match [OF assms(3,4), of False]
  from rmatch_Cat_in [OF 1 rmatch_Cat_in [OF 2 rmatch_Cat_in [OF 3 4]]] show ?thesis
    by (simp only: Cats.simps)
qed

text \<open>
  The lines that \<^verbatim>\<open>katiIncludeRe\<close> matches, exactly: an optional counter, \<open>including\<close> and
  a space, a file token without a space, a space, and then any three code points other than
  the newline, up to the end of the line.
\<close>

lemma katiIncludeRe_language:
  "verbose line \<longleftrightarrow>
     (\<exists>counter tok t3.
        line = counter @ ''including '' @ tok @ '' '' @ t3 \<and>
        (counter = [] \<or>
         (\<exists>n m. counter = ''['' @ n @ ''/'' @ m @ ''] '' \<and> n \<noteq> [] \<and> m \<noteq> [] \<and>
                (\<forall>c \<in> set n. CHR ''0'' \<le> c \<and> c \<le> CHR ''9'') \<and>
                (\<forall>c \<in> set m. CHR ''0'' \<le> c \<and> c \<le> CHR ''9''))) \<and>
        tok \<noteq> [] \<and> CHR '' '' \<notin> set tok \<and>
        RuneCountInString t3 = 3 \<and> CHR 0x0A \<notin> set t3)"
  (is "?lhs \<longleftrightarrow> ?rhs")
proof
  let ?core = "Cats [Lits ''including '', Plus (NotLit CHR '' ''),
                   Lit CHR '' '', AnyCharNotNL, AnyCharNotNL, AnyCharNotNL, EndText]"
  let ?counter = "Cats [Lit CHR ''['', Plus Digit, Lit CHR ''/'', Plus Digit, Lits ''] '']"
  have re: "katiIncludeRe = Cat BeginText (Cat (Quest ?counter) ?core)"
    by (simp add: katiIncludeRe_def)
  {
    assume ?lhs
    then have "rmatch (Cat (Quest ?counter) ?core) (True, line) \<noteq> []"
      unfolding verbose_def re MatchString_anchored .
    then obtain q where "q \<in> set (rmatch (Cat (Quest ?counter) ?core) (True, line))"
      by (meson last_in_set)
    then obtain p1 where p1: "p1 \<in> set (rmatch (Quest ?counter) (True, line))"
      "q \<in> set (rmatch ?core p1)"
      by (rule Cat_elim)
    from core_elim [OF p1(2)] obtain tok t3 where
      c: "snd p1 = ''including '' @ tok @ '' '' @ t3" "tok \<noteq> []" "CHR '' '' \<notin> set tok"
         "RuneCountInString t3 = 3" "CHR 0x0A \<notin> set t3" by blast
    from Quest_elim [OF p1(1)] show ?rhs
    proof
      assume "p1 = (True, line)"
      with c have "line = [] @ ''including '' @ tok @ '' '' @ t3" by simp
      with c(2-) show ?rhs by blast
    next
      assume "p1 \<in> set (rmatch ?counter (True, line))"
      from counter_elim [OF this] obtain n m where
        k: "line = ''['' @ n @ ''/'' @ m @ ''] '' @ snd p1" "n \<noteq> []" "m \<noteq> []"
           "\<forall>c \<in> set n. CHR ''0'' \<le> c \<and> c \<le> CHR ''9''"
           "\<forall>c \<in> set m. CHR ''0'' \<le> c \<and> c \<le> CHR ''9''" by auto
      from k(1) c(1) have "line = (''['' @ n @ ''/'' @ m @ ''] '') @ ''including '' @ tok @ '' '' @ t3"
        by simp
      with k(2-) c(2-) show ?rhs by blast
    qed
  }
  {
    assume ?rhs
    then obtain counter tok t3 where
      l: "line = counter @ ''including '' @ tok @ '' '' @ t3"
      and k: "counter = [] \<or>
         (\<exists>n m. counter = ''['' @ n @ ''/'' @ m @ ''] '' \<and> n \<noteq> [] \<and> m \<noteq> [] \<and>
                (\<forall>c \<in> set n. CHR ''0'' \<le> c \<and> c \<le> CHR ''9'') \<and>
                (\<forall>c \<in> set m. CHR ''0'' \<le> c \<and> c \<le> CHR ''9''))"
      and c: "tok \<noteq> []" "CHR '' '' \<notin> set tok" "RuneCountInString t3 = 3" "CHR 0x0A \<notin> set t3"
      by blast
    have "\<exists>p1 \<in> set (rmatch (Quest ?counter) (True, line)). snd p1 = ''including '' @ tok @ '' '' @ t3"
      using k
    proof
      assume "counter = []"
      with l have "snd (True, line) = ''including '' @ tok @ '' '' @ t3" by simp
      moreover have "(True, line) \<in> set (rmatch (Quest ?counter) (True, line))"
        by (subst rmatch.simps(9)) (simp del: rmatch.simps)
      ultimately show ?thesis by blast
    next
      assume "\<exists>n m. counter = ''['' @ n @ ''/'' @ m @ ''] '' \<and> n \<noteq> [] \<and> m \<noteq> [] \<and>
                (\<forall>c \<in> set n. CHR ''0'' \<le> c \<and> c \<le> CHR ''9'') \<and>
                (\<forall>c \<in> set m. CHR ''0'' \<le> c \<and> c \<le> CHR ''9'')"
      then obtain n m where nm: "counter = ''['' @ n @ ''/'' @ m @ ''] ''" "n \<noteq> []"
        "\<forall>c \<in> set n. CHR ''0'' \<le> c \<and> c \<le> CHR ''9''" "m \<noteq> []"
        "\<forall>c \<in> set m. CHR ''0'' \<le> c \<and> c \<le> CHR ''9''" by blast
      from counter_match [OF nm(2-), of "''including '' @ tok @ '' '' @ t3" True] l nm(1)
      have "(False, ''including '' @ tok @ '' '' @ t3) \<in> set (rmatch ?counter (True, line))"
        by (simp del: rmatch.simps)
      then have "(False, ''including '' @ tok @ '' '' @ t3) \<in> set (rmatch (Quest ?counter) (True, line))"
        by (subst rmatch.simps(9)) (simp del: rmatch.simps)
      then show ?thesis by force
    qed
    then obtain p1 where p1: "p1 \<in> set (rmatch (Quest ?counter) (True, line))"
      "snd p1 = ''including '' @ tok @ '' '' @ t3" by blast
    from core_match_runes [OF c, of "fst p1"] p1(2)
    have "(False, []) \<in> set (rmatch ?core p1)"
      by (metis prod.collapse)
    from rmatch_Cat_in [OF p1(1) this]
    have "rmatch (Cat (Quest ?counter) ?core) (True, line) \<noteq> []"
      by (rule in_set_nonempty)
    then show ?lhs
      unfolding verbose_def re MatchString_anchored .
  }
qed

text \<open>
  Claim C2 says that a line is a progress line exactly when it ends in a space and three
  dots after the file token.  One half holds (\<open>literal_form_is_verbose\<close>).  The other
  does not (\<open>katiIncludeRe_language\<close> has all the lines that match): the dots of \<^verbatim>\<open>katiIncludeRe\<close> are not escaped, so each
  stands for any character: the line \<open>including foo abc\<close> is a progress line for
  \<^verbatim>\<open>katiRewriteOutput\<close>, and on an interactive terminal it is written to the interactive
  sink as a line to be overwritten, not to the secondary sink.
\<close>

theorem katiIncludeRe_dots_match_any_character:
  "verbose ''including foo abc'' \<and>
   katiRewriteOutput True [] [(''including foo abc'', None), (''including a.mk ...'', None)] =
     [Write Stdout ([CHR 0x0D] @ ''including foo abc'' @ [CHR 0x1B] @ ''[K''),
      Write Stdout ([CHR 0x0D] @ ''including a.mk ...'' @ [CHR 0x1B] @ ''[K''),
      Write Stdout [CHR 0x0A]]"
proof -
  have v: "verbose ''including foo abc''" "verbose ''including a.mk ...''"
    by (simp_all add: verbose_def MatchString_def katiIncludeRe_def step1_def)
  then show ?thesis
    by (simp add: katiRewriteOutput_flush katiRewriteLoop_Cons katiRewriteLoop_Nil
          katiRewriteLine_progress limitWidth_def)
qed

end
